theory Spec2Isabelle
  imports Complex_Main
begin

section \<open>Python values and failures\<close>

text \<open>
  The two builders of \<^verbatim>\<open>scripts/ex-gwt-prudic2004t2.py\<close> read integer arrays and
  Python lists. An index that is out of range raises \<^verbatim>\<open>IndexError\<close>; reading a local
  variable that was never assigned raises \<^verbatim>\<open>UnboundLocalError\<close>. The integers of the
  arrays are 64-bit; the only arithmetic on them is \<^verbatim>\<open>- 1\<close>, whose result is used as a
  list index or compared for equality, so they are modelled as \<open>int\<close>.
\<close>

datatype pyerror = IndexError | UnboundLocalError

text \<open>A Python list index: a negative index counts from the end of the list.\<close>

definition py_index :: "nat \<Rightarrow> int \<Rightarrow> nat option" where
  "py_index n i =
     (if 0 \<le> i \<and> i < int n then Some (nat i)
      else if - int n \<le> i \<and> i < 0 then Some (nat (int n + i))
      else None)"

text \<open>
  Reads of a two- and a three-dimensional array at indices that are never negative
  (\<^verbatim>\<open>a[i, j]\<close>, \<^verbatim>\<open>a[k, i, j]\<close>): \<open>None\<close> stands for the \<^verbatim>\<open>IndexError\<close>.
\<close>

definition np_get2 :: "int list list \<Rightarrow> nat \<Rightarrow> nat \<Rightarrow> int option" where
  "np_get2 a i j = (if i < length a \<and> j < length (a ! i) then Some (a ! i ! j) else None)"

definition np_get3 :: "int list list list \<Rightarrow> nat \<Rightarrow> nat \<Rightarrow> nat \<Rightarrow> int option" where
  "np_get3 a k i j = (if k < length a then np_get2 (a ! k) i j else None)"

section \<open>Module-level parameters\<close>

text \<open>
  The builders read these module globals. \<open>prudic2004t2\<close> holds the values the script
  assigns to them. Python floats are modelled as reals.
\<close>

record globals =
  nrow :: nat
  ncol :: nat
  delr :: real
  delc :: real
  lakebed_leakance :: real
  stream_width :: real
  streambed_thick :: real
  streambed_k :: real
  manning :: real

definition prudic2004t2 :: globals where
  "prudic2004t2 =
     \<lparr>nrow = 36, ncol = 23, delr = 405.665, delc = 403.717, lakebed_leakance = 1.0,
      stream_width = 5.0, streambed_thick = 1.0, streambed_k = 100.0, manning = 0.03\<rparr>"

section \<open>Lake connections\<close>

text \<open>
  \<^verbatim>\<open>get_lake_connection_data(lakibd, idomain)\<close>, lines 95 to 183 of the script.

  One connection record: the nine entries of the list \<^verbatim>\<open>h\<close> (or \<^verbatim>\<open>v\<close>) that
  \<^verbatim>\<open>get_lake_connection_data\<close> appends.
\<close>

record lakeconn =
  c_lake :: int
  c_index :: int
  c_cell :: "nat \<times> nat \<times> nat"
  c_type :: string
  c_leak :: real
  c_belev :: real
  c_telev :: real
  c_len :: real
  c_width :: real

text \<open>
  The state of one invocation: the two argument arrays, the two local lists, and the
  exception raised so far, if any. Once \<open>raised\<close> is set every later statement is skipped.
\<close>

record lake_state =
  lakibd :: "int list list"
  idomain :: "int list list list"
  lakeconnectiondata :: "lakeconn list"
  nlakecon :: "int list"
  raised :: "pyerror option"

definition raise :: "pyerror \<Rightarrow> lake_state \<Rightarrow> lake_state" where
  "raise e s = s\<lparr>raised := Some e\<rparr>"

text \<open>
  Building a record reads \<^verbatim>\<open>nlakecon[ilak]\<close>; then \<^verbatim>\<open>nlakecon[ilak] += 1\<close> and the
  record is appended.
\<close>

definition append_conn ::
  "globals \<Rightarrow> int \<Rightarrow> nat \<times> nat \<times> nat \<Rightarrow> string \<Rightarrow> real \<Rightarrow> real \<Rightarrow> lake_state \<Rightarrow> lake_state" where
  "append_conn g ilak cell ty len wid s =
     (case py_index (length (nlakecon s)) ilak of
        None \<Rightarrow> raise IndexError s
      | Some k \<Rightarrow>
          s\<lparr>lakeconnectiondata := lakeconnectiondata s @
               [\<lparr>c_lake = ilak, c_index = nlakecon s ! k, c_cell = cell, c_type = ty,
                 c_leak = lakebed_leakance g, c_belev = 0, c_telev = 0,
                 c_len = len, c_width = wid\<rparr>],
            nlakecon := (nlakecon s)[k := nlakecon s ! k + 1]\<rparr>)"

text \<open>
  The guard of the back, right and front blocks,
  \<^verbatim>\<open>lakibd[a, b] == 0 and idomain[0, a, b]\<close>, and the guard of the left block,
  \<^verbatim>\<open>lakibd[a, b] and idomain[0, a, b] == 0\<close>. \<^verbatim>\<open>and\<close> reads its second operand
  only when the first is true.
\<close>

definition open_face :: "lake_state \<Rightarrow> nat \<Rightarrow> nat \<Rightarrow> pyerror + bool" where
  "open_face s a b =
     (case np_get2 (lakibd s) a b of
        None \<Rightarrow> Inl IndexError
      | Some v \<Rightarrow>
          if v = 0 then
            (case np_get3 (idomain s) 0 a b of
               None \<Rightarrow> Inl IndexError
             | Some d \<Rightarrow> Inr (d \<noteq> 0))
          else Inr False)"

definition left_face :: "lake_state \<Rightarrow> nat \<Rightarrow> nat \<Rightarrow> pyerror + bool" where
  "left_face s a b =
     (case np_get2 (lakibd s) a b of
        None \<Rightarrow> Inl IndexError
      | Some v \<Rightarrow>
          if v \<noteq> 0 then
            (case np_get3 (idomain s) 0 a b of
               None \<Rightarrow> Inl IndexError
             | Some d \<Rightarrow> Inr (d = 0))
          else Inr False)"

definition guarded ::
  "pyerror + bool \<Rightarrow> (lake_state \<Rightarrow> lake_state) \<Rightarrow> lake_state \<Rightarrow> lake_state" where
  "guarded t f s = (case t of Inl e \<Rightarrow> raise e s | Inr b \<Rightarrow> if b then f s else s)"

text \<open>The five blocks of the loop body, in the order of the source.\<close>

definition back_conn :: "globals \<Rightarrow> int \<Rightarrow> nat \<Rightarrow> nat \<Rightarrow> lake_state \<Rightarrow> lake_state" where
  "back_conn g ilak i j s =
     (if raised s \<noteq> None then s
      else if 0 < i then
        guarded (open_face s (i - 1) j)
          (append_conn g ilak (0, i - 1, j) ''horizontal'' (delc g / 2) (delr g)) s
      else s)"

definition left_conn :: "globals \<Rightarrow> int \<Rightarrow> nat \<Rightarrow> nat \<Rightarrow> lake_state \<Rightarrow> lake_state" where
  "left_conn g ilak i j s =
     (if raised s \<noteq> None then s
      else if 0 < j then
        guarded (left_face s i (j - 1))
          (append_conn g ilak (0, i, j - 1) ''horizontal'' (delr g / 2) (delc g)) s
      else s)"

definition right_conn :: "globals \<Rightarrow> int \<Rightarrow> nat \<Rightarrow> nat \<Rightarrow> lake_state \<Rightarrow> lake_state" where
  "right_conn g ilak i j s =
     (if raised s \<noteq> None then s
      else if j + 1 < ncol g then
        guarded (open_face s i (j + 1))
          (append_conn g ilak (0, i, j + 1) ''horizontal'' (delr g / 2) (delc g)) s
      else s)"

definition front_conn :: "globals \<Rightarrow> int \<Rightarrow> nat \<Rightarrow> nat \<Rightarrow> lake_state \<Rightarrow> lake_state" where
  "front_conn g ilak i j s =
     (if raised s \<noteq> None then s
      else if i + 1 < nrow g then
        guarded (open_face s (i + 1) j)
          (append_conn g ilak (0, i + 1, j) ''horizontal'' (delc g / 2) (delr g)) s
      else s)"

definition vertical_conn :: "globals \<Rightarrow> int \<Rightarrow> nat \<Rightarrow> nat \<Rightarrow> lake_state \<Rightarrow> lake_state" where
  "vertical_conn g ilak i j s =
     (if raised s \<noteq> None then s
      else append_conn g ilak (1, i, j) ''vertical'' 0 0 s)"

text \<open>The body of the two loops, for the cell in row \<open>i\<close> and column \<open>j\<close>.\<close>

definition lake_cell :: "globals \<Rightarrow> nat \<Rightarrow> nat \<Rightarrow> lake_state \<Rightarrow> lake_state" where
  "lake_cell g i j s =
     (if raised s \<noteq> None then s
      else case np_get2 (lakibd s) i j of
        None \<Rightarrow> raise IndexError s
      | Some v \<Rightarrow>
          if v = 0 then s
          else
            let ilak = v - 1
            in vertical_conn g ilak i j (front_conn g ilak i j (right_conn g ilak i j
                 (left_conn g ilak i j (back_conn g ilak i j s)))))"

definition lake_row :: "globals \<Rightarrow> nat \<Rightarrow> lake_state \<Rightarrow> lake_state" where
  "lake_row g i s = fold (lake_cell g i) [0..<ncol g] s"

definition lake_scan :: "globals \<Rightarrow> lake_state \<Rightarrow> lake_state" where
  "lake_scan g s = fold (lake_row g) [0..<nrow g] s"

definition lake_init :: "int list list \<Rightarrow> int list list list \<Rightarrow> lake_state" where
  "lake_init lk idm =
     \<lparr>lakibd = lk, idomain = idm, lakeconnectiondata = [], nlakecon = [0, 0], raised = None\<rparr>"

definition lake_run :: "globals \<Rightarrow> int list list \<Rightarrow> int list list list \<Rightarrow> lake_state" where
  "lake_run g lk idm = lake_scan g (lake_init lk idm)"

definition get_lake_connection_data ::
  "globals \<Rightarrow> int list list \<Rightarrow> int list list list \<Rightarrow> pyerror + (lakeconn list \<times> int list)" where
  "get_lake_connection_data g lk idm =
     (let s = lake_run g lk idm
      in case raised s of
           Some e \<Rightarrow> Inl e
         | None \<Rightarrow> Inr (lakeconnectiondata s, nlakecon s))"


section \<open>Stream reaches\<close>

text \<open>
  A numpy \<^verbatim>\<open>float64\<close>. Finite values are modelled as exact reals; dividing by zero gives
  an infinity or not-a-number (with a warning, not an exception).
\<close>

datatype npfloat = Finite real | PosInf | NegInf | NaN

definition np_div :: "real \<Rightarrow> real \<Rightarrow> npfloat" where
  "np_div a b =
     (if b \<noteq> 0 then Finite (a / b)
      else if a = 0 then NaN
      else if 0 < a then PosInf
      else NegInf)"

definition np_mul :: "npfloat \<Rightarrow> real \<Rightarrow> npfloat" where
  "np_mul x b =
     (case x of
        Finite a \<Rightarrow> Finite (a * b)
      | PosInf \<Rightarrow> (if 0 < b then PosInf else if b < 0 then NegInf else NaN)
      | NegInf \<Rightarrow> (if 0 < b then NegInf else if b < 0 then PosInf else NaN)
      | NaN \<Rightarrow> NaN)"

definition np_rsub :: "real \<Rightarrow> npfloat \<Rightarrow> npfloat" where
  "np_rsub a x =
     (case x of
        Finite b \<Rightarrow> Finite (a - b)
      | PosInf \<Rightarrow> NegInf
      | NegInf \<Rightarrow> PosInf
      | NaN \<Rightarrow> NaN)"

text \<open>
  \<^verbatim>\<open>get_stream_data()\<close>, lines 186 to 253 of the script. The function loads
  \<^verbatim>\<open>stream.csv\<close>; the model takes the loaded table as its argument.

  A row of \<^verbatim>\<open>stream.csv\<close>, with the columns the function reads: \<^verbatim>\<open>seg\<close>,
  \<^verbatim>\<open>layer\<close>, \<^verbatim>\<open>row\<close>, \<^verbatim>\<open>col\<close> and \<^verbatim>\<open>length\<close>.
\<close>

record reach =
  r_seg :: int
  r_layer :: int
  r_row :: int
  r_col :: int
  r_length :: real

text \<open>A record of \<^verbatim>\<open>packagedata\<close>: the thirteen entries of the tuple \<^verbatim>\<open>rec\<close>.\<close>

record sfr_rec =
  p_rno :: nat
  p_cellid :: "int \<times> int \<times> int"
  p_rlen :: real
  p_rwid :: real
  p_rgrd :: npfloat
  p_rtp :: npfloat
  p_rbth :: real
  p_rhk :: real
  p_man :: real
  p_ncon :: int
  p_ustrf :: real
  p_ndv :: int
  p_boundname :: string

text \<open>\<^verbatim>\<open>xs[k]\<close> and \<^verbatim>\<open>cd[k].append(x)\<close> for a Python index \<open>k\<close>.\<close>

definition py_get :: "'a list \<Rightarrow> int \<Rightarrow> pyerror + 'a" where
  "py_get xs k =
     (case py_index (length xs) k of
        None \<Rightarrow> Inl IndexError
      | Some n \<Rightarrow> Inr (xs ! n))"

definition py_append :: "int list list \<Rightarrow> int \<Rightarrow> int \<Rightarrow> pyerror + int list list" where
  "py_append cd k x =
     (case py_index (length cd) k of
        None \<Rightarrow> Inl IndexError
      | Some n \<Rightarrow> Inr (cd[n := cd ! n @ [x]]))"

text \<open>
  The locals of the first loop. \<open>distance\<close> is \<open>None\<close> until its first assignment.
\<close>

record pass_state =
  connectiondata :: "int list list"
  isegold :: int
  distance :: "real option"
  distance_along_segment :: "real list"

definition continue_segment :: "reach list \<Rightarrow> nat \<Rightarrow> pass_state \<Rightarrow> pyerror + pass_state" where
  "continue_segment streamdata ireach st =
     (case py_append (connectiondata st) (int ireach) (int ireach - 1) of
        Inl e \<Rightarrow> Inl e
      | Inr cd1 \<Rightarrow>
     (case py_append cd1 (int ireach - 1) (- int ireach) of
        Inl e \<Rightarrow> Inl e
      | Inr cd2 \<Rightarrow>
     (case distance st of
        None \<Rightarrow> Inl UnboundLocalError
      | Some d \<Rightarrow>
     (case py_get (map r_length streamdata) (int ireach - 1) of
        Inl e \<Rightarrow> Inl e
      | Inr l0 \<Rightarrow>
     (case py_get (map r_length streamdata) (int ireach) of
        Inl e \<Rightarrow> Inl e
      | Inr l1 \<Rightarrow>
          Inr (st\<lparr>connectiondata := cd2, distance := Some (d + (l0 * 0.5 + l1 * 0.5))\<rparr>))))))"

definition new_segment :: "reach list \<Rightarrow> nat \<Rightarrow> pass_state \<Rightarrow> pyerror + pass_state" where
  "new_segment streamdata ireach st =
     (case py_get (map r_length streamdata) (int ireach) of
        Inl e \<Rightarrow> Inl e
      | Inr l \<Rightarrow> Inr (st\<lparr>distance := Some (0.5 * l)\<rparr>))"

text \<open>The body of the first loop, for reach number \<open>ireach\<close> and its row.\<close>

definition reach_step :: "reach list \<Rightarrow> nat \<Rightarrow> reach \<Rightarrow> pass_state \<Rightarrow> pyerror + pass_state" where
  "reach_step streamdata ireach row st =
     (let iseg = r_seg row - 1
      in case (if iseg = isegold st then continue_segment streamdata ireach st
               else new_segment streamdata ireach st) of
           Inl e \<Rightarrow> Inl e
         | Inr st' \<Rightarrow>
             (case distance st' of
                None \<Rightarrow> Inl UnboundLocalError
              | Some d \<Rightarrow>
                  Inr (st'\<lparr>isegold := iseg,
                         distance_along_segment := distance_along_segment st' @ [d]\<rparr>)))"

fun reach_loop :: "reach list \<Rightarrow> (nat \<times> reach) list \<Rightarrow> pass_state \<Rightarrow> pyerror + pass_state" where
  "reach_loop streamdata [] st = Inr st"
| "reach_loop streamdata ((ireach, row) # rest) st =
     (case reach_step streamdata ireach row st of
        Inl e \<Rightarrow> Inl e
      | Inr st' \<Rightarrow> reach_loop streamdata rest st')"

definition pass_init :: "reach list \<Rightarrow> pass_state" where
  "pass_init streamdata =
     \<lparr>connectiondata = map (\<lambda>ireach. [int ireach]) [0..<length streamdata],
      isegold = - 1, distance = None, distance_along_segment = []\<rparr>"

text \<open>
  Line 190 reads \<^verbatim>\<open>streamdata.shape[0]\<close>. A file with a single data row is loaded as an
  array without dimensions, whose shape is empty, so for it this read raises
  \<^verbatim>\<open>IndexError\<close> before the loop starts.
\<close>

definition automatic_pass :: "reach list \<Rightarrow> pyerror + pass_state" where
  "automatic_pass streamdata =
     (if length streamdata = 1 then Inl IndexError
      else reach_loop streamdata (enumerate 0 streamdata) (pass_init streamdata))"

text \<open>The four appended connections.\<close>

definition extra_connections :: "int list list \<Rightarrow> pyerror + int list list" where
  "extra_connections cd =
     (case py_append cd 17 (- 31) of Inl e \<Rightarrow> Inl e | Inr cd1 \<Rightarrow>
     (case py_append cd1 31 17 of Inl e \<Rightarrow> Inl e | Inr cd2 \<Rightarrow>
     (case py_append cd2 30 (- 31) of Inl e \<Rightarrow> Inl e | Inr cd3 \<Rightarrow>
      py_append cd3 31 30)))"

definition segment_lengths :: "reach list \<Rightarrow> real list" where
  "segment_lengths streamdata =
     map (\<lambda>iseg. sum_list (map r_length (filter (\<lambda>r. r_seg r = iseg) streamdata)))
       [1, 2, 3, 4]"

definition emaxmin :: "(real \<times> real) list" where
  "emaxmin = [(49, 45), (44.5, 34), (41.5, 34.0), (34.0, 27.2)]"

definition segment_gradients :: "reach list \<Rightarrow> npfloat list" where
  "segment_gradients streamdata =
     map (\<lambda>(iseg, (emax, emin)). np_div (emax - emin) (segment_lengths streamdata ! iseg))
       (enumerate 0 emaxmin)"

text \<open>\<^verbatim>\<open>str\<close> of an integer, for \<^verbatim>\<open>"SEG{}".format(iseg + 1)\<close>.\<close>

fun str_nat :: "nat \<Rightarrow> string" where
  "str_nat n =
     (if n < 10 then [char_of (48 + n)]
      else str_nat (n div 10) @ [char_of (48 + n mod 10)])"

definition str_int :: "int \<Rightarrow> string" where
  "str_int k = (if k < 0 then CHR ''-'' # str_nat (nat (- k)) else str_nat (nat k))"

text \<open>The body of the last loop.\<close>

definition package_rec ::
  "globals \<Rightarrow> reach list \<Rightarrow> real list \<Rightarrow> int list list \<Rightarrow> nat \<Rightarrow> reach \<Rightarrow> pyerror + sfr_rec" where
  "package_rec g streamdata das cd ireach row =
     (let iseg = r_seg row - 1
      in case py_get (segment_gradients streamdata) iseg of
           Inl e \<Rightarrow> Inl e
         | Inr rgrd \<Rightarrow>
        (case py_get emaxmin iseg of
           Inl e \<Rightarrow> Inl e
         | Inr (emax, emin) \<Rightarrow>
        (case py_get das (int ireach) of
           Inl e \<Rightarrow> Inl e
         | Inr d \<Rightarrow>
        (case py_get (segment_lengths streamdata) iseg of
           Inl e \<Rightarrow> Inl e
         | Inr seglen \<Rightarrow>
        (case py_get cd (int ireach) of
           Inl e \<Rightarrow> Inl e
         | Inr conns \<Rightarrow>
             Inr \<lparr>p_rno = ireach,
                  p_cellid = (r_layer row - 1, r_row row - 1, r_col row - 1),
                  p_rlen = r_length row,
                  p_rwid = stream_width g,
                  p_rgrd = rgrd,
                  p_rtp = np_rsub emax (np_mul (np_div d seglen) (emax - emin)),
                  p_rbth = streambed_thick g,
                  p_rhk = streambed_k g,
                  p_man = manning g,
                  p_ncon = int (length conns) - 1,
                  p_ustrf = 1.0,
                  p_ndv = 0,
                  p_boundname = ''SEG'' @ str_int (iseg + 1)\<rparr>)))))"

fun package_loop ::
  "globals \<Rightarrow> reach list \<Rightarrow> real list \<Rightarrow> int list list \<Rightarrow> (nat \<times> reach) list \<Rightarrow>
   pyerror + sfr_rec list" where
  "package_loop g streamdata das cd [] = Inr []"
| "package_loop g streamdata das cd ((ireach, row) # rest) =
     (case package_rec g streamdata das cd ireach row of
        Inl e \<Rightarrow> Inl e
      | Inr r \<Rightarrow>
          (case package_loop g streamdata das cd rest of
             Inl e \<Rightarrow> Inl e
           | Inr rs \<Rightarrow> Inr (r # rs)))"

definition get_stream_data :: "globals \<Rightarrow> reach list \<Rightarrow> pyerror + (sfr_rec list \<times> int list list)" where
  "get_stream_data g streamdata =
     (case automatic_pass streamdata of
        Inl e \<Rightarrow> Inl e
      | Inr st \<Rightarrow>
     (case extra_connections (connectiondata st) of
        Inl e \<Rightarrow> Inl e
      | Inr cd \<Rightarrow>
     (case package_loop g streamdata (distance_along_segment st) cd (enumerate 0 streamdata) of
        Inl e \<Rightarrow> Inl e
      | Inr packagedata \<Rightarrow> Inr (packagedata, cd))))"


section \<open>Notions used in the statements and proofs\<close>

subsection \<open>Lake connections\<close>

text \<open>
  A record without its connection index, and the records the loop body appends for the
  cell in row \<open>i\<close> and column \<open>j\<close> when nothing is raised: the five blocks in the order
  of the source, each under the guard the source writes.
\<close>

type_synonym face = "int \<times> (nat \<times> nat \<times> nat) \<times> string \<times> real \<times> real"

definition face_of :: "lakeconn \<Rightarrow> face" where
  "face_of r = (c_lake r, c_cell r, c_type r, c_len r, c_width r)"

definition cell_faces :: "globals \<Rightarrow> int list list \<Rightarrow> int list list list \<Rightarrow> nat \<Rightarrow> nat \<Rightarrow> face list" where
  "cell_faces g lk idm i j =
     (if lk ! i ! j = 0 then []
      else
        (if 0 < i \<and> lk ! (i - 1) ! j = 0 \<and> idm ! 0 ! (i - 1) ! j \<noteq> 0
         then [(lk ! i ! j - 1, (0, i - 1, j), ''horizontal'', delc g / 2, delr g)] else []) @
        (if 0 < j \<and> lk ! i ! (j - 1) \<noteq> 0 \<and> idm ! 0 ! i ! (j - 1) = 0
         then [(lk ! i ! j - 1, (0, i, j - 1), ''horizontal'', delr g / 2, delc g)] else []) @
        (if j + 1 < ncol g \<and> lk ! i ! (j + 1) = 0 \<and> idm ! 0 ! i ! (j + 1) \<noteq> 0
         then [(lk ! i ! j - 1, (0, i, j + 1), ''horizontal'', delr g / 2, delc g)] else []) @
        (if i + 1 < nrow g \<and> lk ! (i + 1) ! j = 0 \<and> idm ! 0 ! (i + 1) ! j \<noteq> 0
         then [(lk ! i ! j - 1, (0, i + 1, j), ''horizontal'', delc g / 2, delr g)] else []) @
        [(lk ! i ! j - 1, (1, i, j), ''vertical'', 0, 0)])"

definition cells :: "globals \<Rightarrow> (nat \<times> nat) list" where
  "cells g = concat (map (\<lambda>i. map (Pair i) [0..<ncol g]) [0..<nrow g])"

definition block ::
  "globals \<Rightarrow> bool \<Rightarrow> pyerror + bool \<Rightarrow> int \<Rightarrow> nat \<times> nat \<times> nat \<Rightarrow> string \<Rightarrow> real \<Rightarrow> real \<Rightarrow>
   lake_state \<Rightarrow> lake_state" where
  "block g c t ilak cell ty len wid s =
     (if raised s \<noteq> None then s
      else if c then guarded t (append_conn g ilak cell ty len wid) s
      else s)"

definition err_ok :: "lake_state \<Rightarrow> bool" where
  "err_ok s = (raised s = None \<or> raised s = Some IndexError)"

definition numbered :: "lake_state \<Rightarrow> bool" where
  "numbered s =
     ((\<forall>l. map c_index (filter (\<lambda>r. c_lake r = l) (lakeconnectiondata s)) =
           map int [0..<length (filter (\<lambda>r. c_lake r = l) (lakeconnectiondata s))]) \<and>
      nlakecon s =
        [int (length (filter (\<lambda>r. c_lake r = 0) (lakeconnectiondata s))),
         int (length (filter (\<lambda>r. c_lake r = 1) (lakeconnectiondata s)))])"

definition scan_cells :: "globals \<Rightarrow> (nat \<times> nat) list \<Rightarrow> lake_state \<Rightarrow> lake_state" where
  "scan_cells g cs s = fold (\<lambda>(i, j). lake_cell g i j) cs s"

text \<open>
  The distance fields a record emitted for the cell \<open>(i, j)\<close> carries, by the side of the
  cell it connects to.
\<close>

definition oriented :: "globals \<Rightarrow> nat \<Rightarrow> nat \<Rightarrow> face \<Rightarrow> bool" where
  "oriented g i j f =
     (case f of (l, cell, ty, len, wid) \<Rightarrow>
        ty = ''horizontal'' \<and> (0 < i \<and> cell = (0, i - 1, j) \<or> cell = (0, i + 1, j)) \<and>
          len = delc g / 2 \<and> wid = delr g \<or>
        ty = ''horizontal'' \<and> (0 < j \<and> cell = (0, i, j - 1) \<or> cell = (0, i, j + 1)) \<and>
          len = delr g / 2 \<and> wid = delc g \<or>
        ty = ''vertical'' \<and> cell = (1, i, j) \<and> len = 0 \<and> wid = 0)"

subsection \<open>Stream reaches\<close>

text \<open>
  The running midpoint of reach \<open>i\<close>; the connections of reach \<open>i\<close> once the first \<open>k\<close>
  reaches are done; and the locals of the first loop at that point.
\<close>

fun dist_at :: "reach list \<Rightarrow> nat \<Rightarrow> real" where
  "dist_at tbl 0 = r_length (tbl ! 0) / 2"
| "dist_at tbl (Suc i) =
     (if r_seg (tbl ! Suc i) = r_seg (tbl ! i)
      then dist_at tbl i + r_length (tbl ! i) / 2 + r_length (tbl ! Suc i) / 2
      else r_length (tbl ! Suc i) / 2)"

definition links_upto :: "reach list \<Rightarrow> nat \<Rightarrow> nat \<Rightarrow> int list" where
  "links_upto tbl k i =
     [int i] @
     (if 0 < i \<and> i < k \<and> r_seg (tbl ! i) = r_seg (tbl ! (i - 1)) then [int i - 1] else []) @
     (if Suc i < k \<and> r_seg (tbl ! Suc i) = r_seg (tbl ! i) then [- int (Suc i)] else [])"

definition pass_after :: "reach list \<Rightarrow> nat \<Rightarrow> pass_state" where
  "pass_after tbl k =
     \<lparr>connectiondata = map (links_upto tbl k) [0..<length tbl],
      isegold = (if k = 0 then - 1 else r_seg (tbl ! (k - 1)) - 1),
      distance = (if k = 0 then None else Some (dist_at tbl (k - 1))),
      distance_along_segment = map (dist_at tbl) [0..<k]\<rparr>"

text \<open>
  A table keeps each segment together when no segment number comes back after another one.
  Every automatic link adds one entry to each of the two reaches it joins.
\<close>

definition link_entries :: "int list list \<Rightarrow> nat" where
  "link_entries cd = sum_list (map (\<lambda>c. length c - 1) cd)"

definition contiguous :: "reach list \<Rightarrow> bool" where
  "contiguous tbl = distinct (remdups_adj (map r_seg tbl))"

definition joins :: "int list \<Rightarrow> nat" where
  "joins xs = length (filter (\<lambda>i. xs ! i = xs ! (i - 1)) [1..<length xs])"

definition seg_total :: "reach list \<Rightarrow> int \<Rightarrow> real" where
  "seg_total tbl s = sum_list (map r_length (filter (\<lambda>r. r_seg r = s) tbl))"

subsection \<open>Concrete inputs\<close>

text \<open>
  The grid \<^verbatim>\<open>[[0, 1], [1, 1]]\<close> with every cell active, on a model of two rows and two
  columns, and the records the function returns for it.
\<close>

definition example_globals :: globals where
  "example_globals = prudic2004t2\<lparr>nrow := 2, ncol := 2\<rparr>"

definition example_lakibd :: "int list list" where
  "example_lakibd = [[0, 1], [1, 1]]"

definition example_idomain :: "int list list list" where
  "example_idomain = [[[1, 1], [1, 1]], [[1, 1], [1, 1]]]"

definition conn :: "globals \<Rightarrow> int \<Rightarrow> int \<Rightarrow> nat \<times> nat \<times> nat \<Rightarrow> string \<Rightarrow> real \<Rightarrow> real \<Rightarrow> lakeconn" where
  "conn g l n cell ty len wid =
     \<lparr>c_lake = l, c_index = n, c_cell = cell, c_type = ty, c_leak = lakebed_leakance g,
      c_belev = 0, c_telev = 0, c_len = len, c_width = wid\<rparr>"

definition example_records :: "lakeconn list" where
  "example_records =
     [conn example_globals 0 0 (1, 0, 1) ''vertical'' 0 0,
      conn example_globals 0 1 (0, 0, 0) ''horizontal'' (403.717 / 2) 405.665,
      conn example_globals 0 2 (1, 1, 0) ''vertical'' 0 0,
      conn example_globals 0 3 (1, 1, 1) ''vertical'' 0 0]"

text \<open>
  A model of two rows and three columns in two layers. The lake cells are \<open>(0, 1)\<close>,
  \<open>(0, 2)\<close> and \<open>(1, 0)\<close>; of the top layer only the lake cell \<open>(0, 1)\<close> is inactive. The
  scan emits a record on each of the four sides: front of \<open>(0, 1)\<close>, left and front of
  \<open>(0, 2)\<close>, back and right of \<open>(1, 0)\<close>.
\<close>

definition wide_globals :: globals where
  "wide_globals = prudic2004t2\<lparr>nrow := 2, ncol := 3\<rparr>"

definition four_way_lakibd :: "int list list" where
  "four_way_lakibd = [[0, 1, 1], [1, 0, 0]]"

definition four_way_idomain :: "int list list list" where
  "four_way_idomain = [[[1, 0, 1], [1, 1, 1]], [[1, 1, 1], [1, 1, 1]]]"

definition four_way_records :: "lakeconn list" where
  "four_way_records =
     [conn wide_globals 0 0 (0, 1, 1) ''horizontal'' (403.717 / 2) 405.665,
      conn wide_globals 0 1 (1, 0, 1) ''vertical'' 0 0,
      conn wide_globals 0 2 (0, 0, 1) ''horizontal'' (405.665 / 2) 403.717,
      conn wide_globals 0 3 (0, 1, 2) ''horizontal'' (403.717 / 2) 405.665,
      conn wide_globals 0 4 (1, 0, 2) ''vertical'' 0 0,
      conn wide_globals 0 5 (0, 0, 0) ''horizontal'' (403.717 / 2) 405.665,
      conn wide_globals 0 6 (0, 1, 1) ''horizontal'' (405.665 / 2) 403.717,
      conn wide_globals 0 7 (1, 1, 0) ''vertical'' 0 0]"

text \<open>
  Grids of the script's own size, 36 rows and 23 columns in 8 layers: one lake cell at
  row 1, column 1 in a fully active domain; two lake cells side by side at row 1,
  columns 1 and 2, with the whole top layer inactive.
\<close>

definition one_cell_lakibd :: "int list list" where
  "one_cell_lakibd = (replicate 36 (replicate 23 0))[1 := (replicate 23 0)[1 := 1]]"

definition active_idomain :: "int list list list" where
  "active_idomain = replicate 8 (replicate 36 (replicate 23 1))"

definition two_cell_lakibd :: "int list list" where
  "two_cell_lakibd = (replicate 36 (replicate 23 0))[1 := (replicate 23 0)[1 := 1, 2 := 1]]"

definition masked_idomain :: "int list list list" where
  "masked_idomain = replicate 36 (replicate 23 0) # replicate 7 (replicate 36 (replicate 23 1))"

text \<open>
  A table of five reaches in two segments; a table of 32 reaches of segment 1, all of
  length 0.
\<close>

definition example_table :: "reach list" where
  "example_table =
     [\<lparr>r_seg = 1, r_layer = 1, r_row = 1, r_col = 1, r_length = 10\<rparr>,
      \<lparr>r_seg = 1, r_layer = 1, r_row = 1, r_col = 2, r_length = 20\<rparr>,
      \<lparr>r_seg = 1, r_layer = 1, r_row = 2, r_col = 2, r_length = 30\<rparr>,
      \<lparr>r_seg = 2, r_layer = 1, r_row = 3, r_col = 2, r_length = 4\<rparr>,
      \<lparr>r_seg = 2, r_layer = 1, r_row = 3, r_col = 3, r_length = 6\<rparr>]"

definition example_pass :: pass_state where
  "example_pass =
     \<lparr>connectiondata = [[0, - 1], [1, 0, - 2], [2, 1], [3, - 4], [4, 3]],
      isegold = 1, distance = Some 7, distance_along_segment = [5, 20, 45, 2, 7]\<rparr>"

definition zero_length_table :: "reach list" where
  "zero_length_table = replicate 32 \<lparr>r_seg = 1, r_layer = 1, r_row = 1, r_col = 1, r_length = 0\<rparr>"



section \<open>Properties of the lake scan\<close>

subsection \<open>The five blocks have one shape\<close>

lemma back_conn_block:
  "back_conn g ilak i j s =
     block g (0 < i) (open_face s (i - 1) j) ilak (0, i - 1, j) ''horizontal'' (delc g / 2) (delr g) s"
  by (simp add: back_conn_def block_def)

lemma left_conn_block:
  "left_conn g ilak i j s =
     block g (0 < j) (left_face s i (j - 1)) ilak (0, i, j - 1) ''horizontal'' (delr g / 2) (delc g) s"
  by (simp add: left_conn_def block_def)

lemma right_conn_block:
  "right_conn g ilak i j s =
     block g (j + 1 < ncol g) (open_face s i (j + 1)) ilak (0, i, j + 1) ''horizontal''
       (delr g / 2) (delc g) s"
  by (simp add: right_conn_def block_def)

lemma front_conn_block:
  "front_conn g ilak i j s =
     block g (i + 1 < nrow g) (open_face s (i + 1) j) ilak (0, i + 1, j) ''horizontal''
       (delc g / 2) (delr g) s"
  by (simp add: front_conn_def block_def)

lemma vertical_conn_block:
  "vertical_conn g ilak i j s = block g True (Inr True) ilak (1, i, j) ''vertical'' 0 0 s"
  by (simp add: vertical_conn_def block_def guarded_def)

lemmas conn_block =
  back_conn_block left_conn_block right_conn_block front_conn_block vertical_conn_block

subsection \<open>What the guards read\<close>

lemma np_get2_Some: "np_get2 a i j = Some v \<Longrightarrow> v = a ! i ! j \<and> i < length a \<and> j < length (a ! i)"
  by (simp add: np_get2_def split: if_splits)

lemma np_get3_Some: "np_get3 a k i j = Some v \<Longrightarrow> v = a ! k ! i ! j"
  by (auto simp: np_get3_def split: if_splits dest: np_get2_Some)

lemma open_face_Inr:
  "open_face s a b = Inr t \<Longrightarrow> t = (lakibd s ! a ! b = 0 \<and> idomain s ! 0 ! a ! b \<noteq> 0)"
  by (auto simp: open_face_def split: option.splits if_splits dest: np_get2_Some np_get3_Some)

lemma left_face_Inr:
  "left_face s a b = Inr t \<Longrightarrow> t = (lakibd s ! a ! b \<noteq> 0 \<and> idomain s ! 0 ! a ! b = 0)"
  by (auto simp: left_face_def split: option.splits if_splits dest: np_get2_Some np_get3_Some)

lemma open_face_error: "open_face s a b = Inl e \<Longrightarrow> e = IndexError"
  by (auto simp: open_face_def split: option.splits if_splits)

lemma left_face_error: "left_face s a b = Inl e \<Longrightarrow> e = IndexError"
  by (auto simp: left_face_def split: option.splits if_splits)

lemma face_arrays:
  "lakibd s' = lakibd s \<Longrightarrow> idomain s' = idomain s \<Longrightarrow> open_face s' a b = open_face s a b"
  "lakibd s' = lakibd s \<Longrightarrow> idomain s' = idomain s \<Longrightarrow> left_face s' a b = left_face s a b"
  by (simp_all add: open_face_def left_face_def cong: option.case_cong if_cong)

subsection \<open>One block\<close>

lemma raise_fields [simp]:
  "lakibd (raise e s) = lakibd s" "idomain (raise e s) = idomain s"
  "nlakecon (raise e s) = nlakecon s" "lakeconnectiondata (raise e s) = lakeconnectiondata s"
  "raised (raise e s) = Some e"
  by (simp_all add: raise_def)

lemma append_conn_arrays [simp]:
  "lakibd (append_conn g ilak c ty len wid s) = lakibd s"
  "idomain (append_conn g ilak c ty len wid s) = idomain s"
  "length (nlakecon (append_conn g ilak c ty len wid s)) = length (nlakecon s)"
  by (simp_all add: append_conn_def split: option.splits)

lemma block_arrays [simp]:
  "lakibd (block g c t ilak cell ty len wid s) = lakibd s"
  "idomain (block g c t ilak cell ty len wid s) = idomain s"
  "length (nlakecon (block g c t ilak cell ty len wid s)) = length (nlakecon s)"
  by (simp_all add: block_def guarded_def split: sum.splits)

lemma block_raised: "raised s \<noteq> None \<Longrightarrow> block g c t ilak cell ty len wid s = s"
  by (simp add: block_def)

lemma block_unraised:
  "raised (block g c t ilak cell ty len wid s) = None \<Longrightarrow> raised s = None"
  by (cases "raised s") (simp_all add: block_raised)

lemma block_faces:
  assumes "raised (block g c t ilak cell ty len wid s) = None"
  shows "map face_of (lakeconnectiondata (block g c t ilak cell ty len wid s)) =
           map face_of (lakeconnectiondata s) @
           (if c \<and> t = Inr True then [(ilak, cell, ty, len, wid)] else [])"
  using assms
  by (auto simp: block_def guarded_def append_conn_def face_of_def
           split: if_splits sum.splits option.splits)

lemma block_err_ok:
  "err_ok s \<Longrightarrow> (\<And>e. t = Inl e \<Longrightarrow> e = IndexError) \<Longrightarrow>
   err_ok (block g c t ilak cell ty len wid s)"
  by (auto simp: err_ok_def block_def guarded_def append_conn_def split: sum.splits option.splits)

lemma block_fails:
  "raised s = None \<Longrightarrow> py_index (length (nlakecon s)) ilak = None \<Longrightarrow>
   raised (block g True (Inr True) ilak cell ty len wid s) \<noteq> None"
  by (simp add: block_def guarded_def append_conn_def)

lemma append_conn_numbered:
  assumes "numbered s" and "0 \<le> ilak"
  shows "numbered (append_conn g ilak cell ty len wid s)"
proof (cases "ilak = 0 \<or> ilak = 1")
  case True
  have len2: "length (nlakecon s) = 2"
    using assms(1) by (simp add: numbered_def)
  from True show ?thesis
  proof
    assume "ilak = 0"
    with assms(1) len2 show ?thesis
      by (simp add: numbered_def append_conn_def py_index_def)
  next
    assume "ilak = 1"
    with assms(1) len2 show ?thesis
      by (simp add: numbered_def append_conn_def py_index_def)
  qed
next
  case False
  with assms have "py_index (length (nlakecon s)) ilak = None"
    by (simp add: numbered_def py_index_def)
  with assms(1) show ?thesis
    by (simp add: append_conn_def numbered_def)
qed

lemma raise_numbered: "numbered s \<Longrightarrow> numbered (raise e s)"
  by (simp add: numbered_def)

lemma block_numbered:
  "numbered s \<Longrightarrow> 0 \<le> ilak \<Longrightarrow> numbered (block g c t ilak cell ty len wid s)"
  by (simp add: block_def guarded_def append_conn_numbered raise_numbered split: sum.splits)


lemma block_test:
  "raised (block g c t ilak cell ty len wid s) = None \<Longrightarrow> c \<Longrightarrow> \<exists>b. t = Inr b"
  by (cases t) (auto simp: block_def guarded_def split: if_splits)

lemma block_open_faces:
  assumes "raised (block g c (open_face s a b) ilak cell ty len wid s) = None"
  shows "map face_of (lakeconnectiondata (block g c (open_face s a b) ilak cell ty len wid s)) =
           map face_of (lakeconnectiondata s) @
           (if c \<and> lakibd s ! a ! b = 0 \<and> idomain s ! 0 ! a ! b \<noteq> 0
            then [(ilak, cell, ty, len, wid)] else [])"
proof (cases c)
  case True
  with assms obtain t where t: "open_face s a b = Inr t"
    using block_test by blast
  with assms True show ?thesis
    by (simp add: block_faces open_face_Inr [OF t])
next
  case False
  with assms show ?thesis by (simp add: block_faces)
qed

lemma block_left_faces:
  assumes "raised (block g c (left_face s a b) ilak cell ty len wid s) = None"
  shows "map face_of (lakeconnectiondata (block g c (left_face s a b) ilak cell ty len wid s)) =
           map face_of (lakeconnectiondata s) @
           (if c \<and> lakibd s ! a ! b \<noteq> 0 \<and> idomain s ! 0 ! a ! b = 0
            then [(ilak, cell, ty, len, wid)] else [])"
proof (cases c)
  case True
  with assms obtain t where t: "left_face s a b = Inr t"
    using block_test by blast
  with assms True show ?thesis
    by (simp add: block_faces left_face_Inr [OF t])
next
  case False
  with assms show ?thesis by (simp add: block_faces)
qed

subsection \<open>The loop body\<close>

lemma lake_cell_arrays [simp]:
  "lakibd (lake_cell g i j s) = lakibd s"
  "idomain (lake_cell g i j s) = idomain s"
  "length (nlakecon (lake_cell g i j s)) = length (nlakecon s)"
  by (simp_all add: lake_cell_def conn_block Let_def split: option.splits)

lemma lake_cell_raised: "raised s \<noteq> None \<Longrightarrow> lake_cell g i j s = s"
  by (simp add: lake_cell_def)

lemma lake_cell_unraised: "raised (lake_cell g i j s) = None \<Longrightarrow> raised s = None"
  by (cases "raised s") (simp_all add: lake_cell_raised)

lemma lake_cell_faces:
  assumes "raised (lake_cell g i j s) = None"
  shows "map face_of (lakeconnectiondata (lake_cell g i j s)) =
           map face_of (lakeconnectiondata s) @ cell_faces g (lakibd s) (idomain s) i j"
proof -
  have un: "raised s = None"
    using assms by (rule lake_cell_unraised)
  show ?thesis
  proof (cases "np_get2 (lakibd s) i j")
    case None
    with assms un show ?thesis by (simp add: lake_cell_def)
  next
    case (Some v)
    then have v: "v = lakibd s ! i ! j" by (simp add: np_get2_Some)
    show ?thesis
    proof (cases "v = 0")
      case True
      with Some un v show ?thesis by (simp add: lake_cell_def cell_faces_def)
    next
      case False
      define s1 where "s1 = back_conn g (v - 1) i j s"
      define s2 where "s2 = left_conn g (v - 1) i j s1"
      define s3 where "s3 = right_conn g (v - 1) i j s2"
      define s4 where "s4 = front_conn g (v - 1) i j s3"
      have cell: "lake_cell g i j s = vertical_conn g (v - 1) i j s4"
        using Some un False by (simp add: lake_cell_def s1_def s2_def s3_def s4_def Let_def)
      have r5: "raised (vertical_conn g (v - 1) i j s4) = None"
        using assms cell by simp
      then have r4: "raised s4 = None"
        unfolding vertical_conn_block by (rule block_unraised)
      then have r3: "raised s3 = None"
        unfolding s4_def front_conn_block by (rule block_unraised)
      then have r2: "raised s2 = None"
        unfolding s3_def right_conn_block by (rule block_unraised)
      then have r1: "raised s1 = None"
        unfolding s2_def left_conn_block by (rule block_unraised)
      have a1: "lakibd s1 = lakibd s" "idomain s1 = idomain s"
        by (simp_all add: s1_def back_conn_block)
      have a2: "lakibd s2 = lakibd s" "idomain s2 = idomain s"
        by (simp_all add: s2_def left_conn_block a1)
      have a3: "lakibd s3 = lakibd s" "idomain s3 = idomain s"
        by (simp_all add: s3_def right_conn_block a2)
      have f1: "map face_of (lakeconnectiondata s1) =
          map face_of (lakeconnectiondata s) @
          (if 0 < i \<and> lakibd s ! (i - 1) ! j = 0 \<and> idomain s ! 0 ! (i - 1) ! j \<noteq> 0
           then [(v - 1, (0, i - 1, j), ''horizontal'', delc g / 2, delr g)] else [])"
        using r1 unfolding s1_def back_conn_block by (rule block_open_faces)
      have f2: "map face_of (lakeconnectiondata s2) =
          map face_of (lakeconnectiondata s1) @
          (if 0 < j \<and> lakibd s ! i ! (j - 1) \<noteq> 0 \<and> idomain s ! 0 ! i ! (j - 1) = 0
           then [(v - 1, (0, i, j - 1), ''horizontal'', delr g / 2, delc g)] else [])"
        using block_left_faces [OF r2 [unfolded s2_def left_conn_block]]
        by (simp only: a1 s2_def left_conn_block)
      have f3: "map face_of (lakeconnectiondata s3) =
          map face_of (lakeconnectiondata s2) @
          (if j + 1 < ncol g \<and> lakibd s ! i ! (j + 1) = 0 \<and> idomain s ! 0 ! i ! (j + 1) \<noteq> 0
           then [(v - 1, (0, i, j + 1), ''horizontal'', delr g / 2, delc g)] else [])"
        using block_open_faces [OF r3 [unfolded s3_def right_conn_block]]
        by (simp only: a2 s3_def right_conn_block)
      have f4: "map face_of (lakeconnectiondata s4) =
          map face_of (lakeconnectiondata s3) @
          (if i + 1 < nrow g \<and> lakibd s ! (i + 1) ! j = 0 \<and> idomain s ! 0 ! (i + 1) ! j \<noteq> 0
           then [(v - 1, (0, i + 1, j), ''horizontal'', delc g / 2, delr g)] else [])"
        using block_open_faces [OF r4 [unfolded s4_def front_conn_block]]
        by (simp only: a3 s4_def front_conn_block)
      have f5: "map face_of (lakeconnectiondata (vertical_conn g (v - 1) i j s4)) =
          map face_of (lakeconnectiondata s4) @ [(v - 1, (1, i, j), ''vertical'', 0, 0)]"
        using block_faces [OF r5 [unfolded vertical_conn_block]]
        by (simp add: vertical_conn_block)
      show ?thesis
        unfolding cell f5 f4 f3 f2 f1 using False v
        by (simp add: cell_faces_def)
    qed
  qed
qed


lemma lake_cell_err_ok: "err_ok s \<Longrightarrow> err_ok (lake_cell g i j s)"
proof -
  assume s: "err_ok s"
  have "err_ok (raise IndexError s)"
    by (simp add: err_ok_def)
  moreover have "err_ok (vertical_conn g k i j (front_conn g k i j (right_conn g k i j
                   (left_conn g k i j (back_conn g k i j s)))))" for k
    unfolding conn_block
    by (intro block_err_ok s) (auto dest: open_face_error left_face_error)
  ultimately show ?thesis
    using s by (simp add: lake_cell_def Let_def split: option.splits)
qed

lemma lake_cell_numbered:
  assumes "numbered s" and "\<forall>xs\<in>set (lakibd s). \<forall>v\<in>set xs. 0 \<le> v"
  shows "numbered (lake_cell g i j s)"
proof (cases "np_get2 (lakibd s) i j")
  case None
  with assms(1) show ?thesis
    by (simp add: lake_cell_def raise_numbered)
next
  case (Some v)
  then have "v \<in> set (lakibd s ! i)" and "lakibd s ! i \<in> set (lakibd s)"
    by (auto dest: np_get2_Some)
  with assms(2) have "0 \<le> v" by blast
  then have "v \<noteq> 0 \<Longrightarrow> 0 \<le> v - 1" by simp
  then have "v \<noteq> 0 \<Longrightarrow>
      numbered (vertical_conn g (v - 1) i j (front_conn g (v - 1) i j (right_conn g (v - 1) i j
        (left_conn g (v - 1) i j (back_conn g (v - 1) i j s)))))"
    unfolding conn_block by (intro block_numbered assms(1))
  with Some assms(1) show ?thesis
    by (simp add: lake_cell_def Let_def)
qed

lemma lake_cell_overflow:
  assumes "err_ok s" and "length (nlakecon s) = 2"
    and "np_get2 (lakibd s) i j = Some v" and "3 \<le> v"
  shows "raised (lake_cell g i j s) = Some IndexError"
proof -
  define s4 where "s4 = front_conn g (v - 1) i j (right_conn g (v - 1) i j
      (left_conn g (v - 1) i j (back_conn g (v - 1) i j s)))"
  have len: "length (nlakecon s4) = 2"
    by (simp add: s4_def conn_block assms(2))
  have idx: "py_index (length (nlakecon s4)) (v - 1) = None"
    using assms(4) by (simp add: len py_index_def)
  have "raised (vertical_conn g (v - 1) i j s4) \<noteq> None"
  proof (cases "raised s4")
    case None
    then show ?thesis
      unfolding vertical_conn_block using idx by (rule block_fails)
  next
    case (Some e)
    then show ?thesis by (simp add: vertical_conn_block block_raised)
  qed
  then have "raised (lake_cell g i j s) \<noteq> None"
    using assms(3,4) by (simp add: lake_cell_def Let_def s4_def)
  moreover have "err_ok (lake_cell g i j s)"
    using assms(1) by (rule lake_cell_err_ok)
  ultimately show ?thesis
    by (auto simp: err_ok_def)
qed

subsection \<open>The two loops\<close>


lemma fold_nested: "fold f (concat (map h xs)) s = fold (\<lambda>x. fold f (h x)) xs s"
  by (induction xs arbitrary: s) simp_all

lemma lake_scan_cells: "lake_scan g s = scan_cells g (cells g) s"
proof -
  have "fold (\<lambda>(i, j). lake_cell g i j) (map (Pair i) xs) = fold (lake_cell g i) xs" for i xs
    by (simp add: fold_map comp_def)
  moreover have "lake_row g = (\<lambda>i. fold (lake_cell g i) [0..<ncol g])"
    by (rule ext)+ (simp add: lake_row_def)
  ultimately show ?thesis
    by (simp add: lake_scan_def scan_cells_def cells_def fold_nested)
qed

lemma scan_cells_simps [simp]:
  "scan_cells g [] s = s"
  "scan_cells g ((i, j) # cs) s = scan_cells g cs (lake_cell g i j s)"
  "scan_cells g (cs @ ds) s = scan_cells g ds (scan_cells g cs s)"
  by (simp_all add: scan_cells_def)

lemma scan_cells_lakibd [simp]: "lakibd (scan_cells g cs s) = lakibd s"
  by (induction cs arbitrary: s) auto

lemma scan_cells_idomain [simp]: "idomain (scan_cells g cs s) = idomain s"
  by (induction cs arbitrary: s) auto

lemma scan_cells_length [simp]: "length (nlakecon (scan_cells g cs s)) = length (nlakecon s)"
  by (induction cs arbitrary: s) auto

lemma scan_cells_raised: "raised s \<noteq> None \<Longrightarrow> scan_cells g cs s = s"
  by (induction cs arbitrary: s) (auto simp: lake_cell_raised)

lemma scan_cells_unraised: "raised (scan_cells g cs s) = None \<Longrightarrow> raised s = None"
  by (cases "raised s") (simp_all add: scan_cells_raised)

lemma scan_cells_err_ok: "err_ok s \<Longrightarrow> err_ok (scan_cells g cs s)"
  by (induction cs arbitrary: s) (auto simp: lake_cell_err_ok)

lemma scan_cells_numbered:
  "numbered s \<Longrightarrow> \<forall>xs\<in>set (lakibd s). \<forall>v\<in>set xs. 0 \<le> v \<Longrightarrow> numbered (scan_cells g cs s)"
  by (induction cs arbitrary: s) (auto simp: lake_cell_numbered)

lemma scan_cells_faces:
  "raised (scan_cells g cs s) = None \<Longrightarrow>
   map face_of (lakeconnectiondata (scan_cells g cs s)) =
     map face_of (lakeconnectiondata s) @
     concat (map (\<lambda>(i, j). cell_faces g (lakibd s) (idomain s) i j) cs)"
proof (induction cs arbitrary: s)
  case Nil
  then show ?case by simp
next
  case (Cons c cs)
  obtain i j where c: "c = (i, j)" by (cases c)
  from Cons.prems have r: "raised (scan_cells g cs (lake_cell g i j s)) = None"
    by (simp add: c)
  then have "raised (lake_cell g i j s) = None"
    by (rule scan_cells_unraised)
  then have "map face_of (lakeconnectiondata (lake_cell g i j s)) =
      map face_of (lakeconnectiondata s) @ cell_faces g (lakibd s) (idomain s) i j"
    by (rule lake_cell_faces)
  with Cons.IH [OF r] show ?case
    by (simp add: c)
qed

lemma scan_cells_overflow:
  assumes "(i, j) \<in> set cs" and "err_ok s" and "length (nlakecon s) = 2"
    and "np_get2 (lakibd s) i j = Some v" and "3 \<le> v"
  shows "raised (scan_cells g cs s) = Some IndexError"
proof -
  from assms(1) obtain pre post where cs: "cs = pre @ (i, j) # post"
    by (auto dest: split_list)
  define s1 where "s1 = scan_cells g pre s"
  have "err_ok s1" "length (nlakecon s1) = 2" "np_get2 (lakibd s1) i j = Some v"
    using assms by (simp_all add: s1_def scan_cells_err_ok)
  then have "raised (lake_cell g i j s1) = Some IndexError"
    using assms(5) by (rule lake_cell_overflow)
  then show ?thesis
    by (simp add: cs s1_def scan_cells_raised)
qed

lemma cells_set: "set (cells g) = {(i, j). i < nrow g \<and> j < ncol g}"
  by (auto simp: cells_def)

lemma lake_init_fields [simp]:
  "lakibd (lake_init lk idm) = lk" "idomain (lake_init lk idm) = idm"
  "lakeconnectiondata (lake_init lk idm) = []" "nlakecon (lake_init lk idm) = [0, 0]"
  "raised (lake_init lk idm) = None"
  by (simp_all add: lake_init_def)

lemma lake_init_ok: "err_ok (lake_init lk idm)" "numbered (lake_init lk idm)"
  by (simp_all add: err_ok_def numbered_def)

lemma get_lake_connection_data_Inr:
  "get_lake_connection_data g lk idm = Inr (recs, cnt) \<Longrightarrow>
   raised (lake_run g lk idm) = None \<and> recs = lakeconnectiondata (lake_run g lk idm) \<and>
   cnt = nlakecon (lake_run g lk idm)"
  by (auto simp: get_lake_connection_data_def Let_def split: option.splits)

lemma lake_run_cells: "lake_run g lk idm = scan_cells g (cells g) (lake_init lk idm)"
  by (simp add: lake_run_def lake_scan_cells)

lemma in_optional: "f \<in> set (if c then [x] else []) \<Longrightarrow> c \<and> f = x"
  by (cases c) simp_all

lemma cell_faces_oriented:
  assumes "f \<in> set (cell_faces g lk idm i j)"
  shows "oriented g i j f"
proof -
  define l where "l = lk ! i ! j - 1"
  define A :: "face list" where "A = (if 0 < i \<and> lk ! (i - 1) ! j = 0 \<and> idm ! 0 ! (i - 1) ! j \<noteq> 0
         then [(l, (0, i - 1, j), ''horizontal'', delc g / 2, delr g)] else [])"
  define B :: "face list" where "B = (if 0 < j \<and> lk ! i ! (j - 1) \<noteq> 0 \<and> idm ! 0 ! i ! (j - 1) = 0
         then [(l, (0, i, j - 1), ''horizontal'', delr g / 2, delc g)] else [])"
  define C :: "face list" where "C = (if j + 1 < ncol g \<and> lk ! i ! (j + 1) = 0 \<and> idm ! 0 ! i ! (j + 1) \<noteq> 0
         then [(l, (0, i, j + 1), ''horizontal'', delr g / 2, delc g)] else [])"
  define D :: "face list" where "D = (if i + 1 < nrow g \<and> lk ! (i + 1) ! j = 0 \<and> idm ! 0 ! (i + 1) ! j \<noteq> 0
         then [(l, (0, i + 1, j), ''horizontal'', delc g / 2, delr g)] else [])"
  have "cell_faces g lk idm i j = (if lk ! i ! j = 0 then [] else A @ B @ C @ D @ [(l, (1, i, j), ''vertical'', 0, 0)])"
    unfolding cell_faces_def A_def B_def C_def D_def l_def ..
  with assms have "f \<in> set (A @ B @ C @ D @ [(l, (1, i, j), ''vertical'', 0, 0)])"
    by (cases "lk ! i ! j = 0") simp_all
  then consider "f \<in> set A" | "f \<in> set B" | "f \<in> set C" | "f \<in> set D"
    | "f = (l, (1, i, j), ''vertical'', 0, 0)"
    by auto
  then show ?thesis
  proof cases
    case 1
    then have "0 < i \<and> f = (l, (0, i - 1, j), ''horizontal'', delc g / 2, delr g)"
      unfolding A_def by (auto dest: in_optional)
    then show ?thesis by (simp add: oriented_def)
  next
    case 2
    then have "0 < j \<and> f = (l, (0, i, j - 1), ''horizontal'', delr g / 2, delc g)"
      unfolding B_def by (auto dest: in_optional)
    then show ?thesis by (simp add: oriented_def)
  next
    case 3
    then have "f = (l, (0, i, j + 1), ''horizontal'', delr g / 2, delc g)"
      unfolding C_def by (auto dest: in_optional)
    then show ?thesis by (simp add: oriented_def)
  next
    case 4
    then have "f = (l, (0, i + 1, j), ''horizontal'', delc g / 2, delr g)"
      unfolding D_def by (auto dest: in_optional)
    then show ?thesis by (simp add: oriented_def)
  next
    case 5
    then show ?thesis by (simp add: oriented_def)
  qed
qed

text \<open>Among the records of a lake cell there is exactly one vertical record.\<close>

lemma cell_faces_vertical:
  assumes "lk ! i ! j \<noteq> 0"
  shows "filter (\<lambda>(l, cell, ty, len, wid). ty = ''vertical'') (cell_faces g lk idm i j) =
           [(lk ! i ! j - 1, (1, i, j), ''vertical'', 0, 0)]"
  using assms by (simp add: cell_faces_def)

text \<open>Unfolding the function on a concrete grid.\<close>

lemmas lake_eval =
  get_lake_connection_data_def lake_run_def lake_scan_def lake_row_def lake_cell_def
  lake_init_def np_get2_def np_get3_def back_conn_def left_conn_def right_conn_def
  front_conn_def vertical_conn_def guarded_def open_face_def left_face_def append_conn_def
  py_index_def raise_def nth_list_update upt_rec

lemma example_run:
  "get_lake_connection_data example_globals example_lakibd example_idomain =
     Inr (example_records, [4, 0])"
  by code_simp

lemma four_way_run:
  "get_lake_connection_data wide_globals four_way_lakibd four_way_idomain =
     Inr (four_way_records, [8, 0])"
  by (simp add: lake_eval wide_globals_def four_way_lakibd_def four_way_idomain_def
      four_way_records_def conn_def prudic2004t2_def)


text \<open>
  The left block appends nothing when the cell to the left is not a lake cell, whatever the
  domain mask says; it appends a record when that cell is an inactive lake cell.
\<close>

lemma left_conn_nonlake:
  "np_get2 (lakibd s) i (j - 1) = Some 0 \<Longrightarrow> left_conn g ilak i j s = s"
  by (simp add: left_conn_def guarded_def left_face_def)

text \<open>
  A cell value of \<open>-1\<close> is not rejected: \<^verbatim>\<open>nlakecon[-2]\<close> is the counter of lake 0, so
  the record of lake \<open>-2\<close> gets the index 1.
\<close>

lemma negative_value_shares_counter:
  "get_lake_connection_data example_globals [[1, - 1], [0, 0]] example_idomain =
     Inr ([conn example_globals 0 0 (0, 1, 0) ''horizontal'' (403.717 / 2) 405.665,
           conn example_globals 0 1 (1, 0, 0) ''vertical'' 0 0,
           conn example_globals (- 2) 2 (0, 1, 1) ''horizontal'' (403.717 / 2) 405.665,
           conn example_globals (- 2) 3 (1, 0, 1) ''vertical'' 0 0], [4, 0])"
  by (simp add: lake_eval example_globals_def example_idomain_def conn_def prudic2004t2_def)


section \<open>Properties of the stream builder\<close>

lemma py_index_nat [simp]: "i < n \<Longrightarrow> py_index n (int i) = Some i"
  by (simp add: py_index_def)

lemma py_index_pred [simp]: "0 < i \<Longrightarrow> i < n \<Longrightarrow> py_index n (int i - 1) = Some (i - 1)"
  by (auto simp: py_index_def nat_diff_distrib')

lemma py_index_zero [simp]: "0 < n \<Longrightarrow> py_index n 0 = Some 0"
  by (simp add: py_index_def)

lemma py_index_last [simp]: "py_index (Suc n) (- 1) = Some n"
  by (simp add: py_index_def)

lemma pass_init_after: "pass_init tbl = pass_after tbl 0"
  by (simp add: pass_init_def pass_after_def links_upto_def)

lemma links_first: "0 < length tbl \<Longrightarrow>
    map (links_upto tbl (Suc 0)) [0..<length tbl] = map (links_upto tbl 0) [0..<length tbl]"
  by (auto simp: links_upto_def)

lemma links_next:
  assumes "0 < k" "k < length tbl"
  shows "map (links_upto tbl (Suc k)) [0..<length tbl] =
     (if r_seg (tbl ! k) = r_seg (tbl ! (k - 1))
      then ((map (links_upto tbl k) [0..<length tbl])
              [k := links_upto tbl k k @ [int k - 1]])
              [k - 1 := links_upto tbl k (k - 1) @ [- int k]]
      else map (links_upto tbl k) [0..<length tbl])"
proof (rule nth_equalityI)
  show "length (map (links_upto tbl (Suc k)) [0..<length tbl]) =
    length (if r_seg (tbl ! k) = r_seg (tbl ! (k - 1))
      then ((map (links_upto tbl k) [0..<length tbl])
              [k := links_upto tbl k k @ [int k - 1]])
              [k - 1 := links_upto tbl k (k - 1) @ [- int k]]
      else map (links_upto tbl k) [0..<length tbl])"
    by simp
next
  fix i assume "i < length (map (links_upto tbl (Suc k)) [0..<length tbl])"
  then have i: "i < length tbl" by simp
  consider "i = k" | "i = k - 1" | "i \<noteq> k" "i \<noteq> k - 1" by blast
  then show "map (links_upto tbl (Suc k)) [0..<length tbl] ! i =
    (if r_seg (tbl ! k) = r_seg (tbl ! (k - 1))
      then ((map (links_upto tbl k) [0..<length tbl])
              [k := links_upto tbl k k @ [int k - 1]])
              [k - 1 := links_upto tbl k (k - 1) @ [- int k]]
      else map (links_upto tbl k) [0..<length tbl]) ! i"
  proof cases
    case 1
    with assms show ?thesis by (simp add: links_upto_def)
  next
    case 2
    with assms show ?thesis by (simp add: links_upto_def)
  next
    case 3
    with assms i show ?thesis by (auto simp: links_upto_def less_Suc_eq)
  qed
qed

lemma dist_at_pos:
  "0 < k \<Longrightarrow> dist_at tbl k =
     (if r_seg (tbl ! k) = r_seg (tbl ! (k - 1))
      then dist_at tbl (k - 1) + r_length (tbl ! (k - 1)) / 2 + r_length (tbl ! k) / 2
      else r_length (tbl ! k) / 2)"
  by (cases k) simp_all

lemma reach_step_after:
  assumes "k < length tbl" and "r_seg (tbl ! 0) \<noteq> 0"
  shows "reach_step tbl k (tbl ! k) (pass_after tbl k) = Inr (pass_after tbl (Suc k))"
proof (cases "k = 0")
  case True
  with assms show ?thesis
    by (simp add: reach_step_def new_segment_def py_get_def pass_after_def links_first)
next
  case False
  with assms have k: "0 < k" "k < length tbl" "k - 1 < length tbl" by simp_all
  show ?thesis
  proof (cases "r_seg (tbl ! k) = r_seg (tbl ! (k - 1))")
    case True
    with k show ?thesis
      by (simp add: reach_step_def continue_segment_def py_get_def py_append_def pass_after_def
          links_next dist_at_pos Let_def)
  next
    case False
    with k show ?thesis
      by (simp add: reach_step_def new_segment_def py_get_def pass_after_def links_next
          dist_at_pos Let_def)
  qed
qed

lemma reach_loop_after:
  assumes "r_seg (tbl ! 0) \<noteq> 0"
  shows "k \<le> length tbl \<Longrightarrow>
    reach_loop tbl (enumerate k (drop k tbl)) (pass_after tbl k) = Inr (pass_after tbl (length tbl))"
proof (induction "length tbl - k" arbitrary: k)
  case 0
  then show ?case by simp
next
  case (Suc d)
  then have k: "k < length tbl" and d: "d = length tbl - Suc k" by simp_all
  have "drop k tbl = tbl ! k # drop (Suc k) tbl"
    using k by (simp add: Cons_nth_drop_Suc)
  then have "reach_loop tbl (enumerate k (drop k tbl)) (pass_after tbl k) =
      reach_loop tbl (enumerate (Suc k) (drop (Suc k) tbl)) (pass_after tbl (Suc k))"
    using reach_step_after [OF k assms] by simp
  also have "\<dots> = Inr (pass_after tbl (length tbl))"
    using Suc.hyps(1) [OF d] k by simp
  finally show ?case .
qed

lemma automatic_pass_result:
  assumes "length tbl \<noteq> 1" and "tbl = [] \<or> r_seg (tbl ! 0) \<noteq> 0"
  shows "automatic_pass tbl = Inr (pass_after tbl (length tbl))"
proof (cases "tbl = []")
  case True
  then show ?thesis
    by (simp add: automatic_pass_def pass_init_after)
next
  case False
  with assms(2) have "r_seg (tbl ! 0) \<noteq> 0" by simp
  from reach_loop_after [OF this, of 0] assms(1) show ?thesis
    by (simp add: automatic_pass_def pass_init_after)
qed

lemma automatic_pass_single: "length tbl = 1 \<Longrightarrow> automatic_pass tbl = Inl IndexError"
  by (simp add: automatic_pass_def)

lemma automatic_pass_unbound:
  assumes "tbl \<noteq> []" and "length tbl \<noteq> 1" and "r_seg (tbl ! 0) = 0"
  shows "automatic_pass tbl = Inl UnboundLocalError"
proof -
  obtain r rs where tbl: "tbl = r # rs"
    using assms(1) by (cases tbl) auto
  from assms(2,3) show ?thesis
    by (simp add: tbl automatic_pass_def pass_init_def reach_step_def continue_segment_def
        py_append_def Let_def)
qed

lemma joins_snoc:
  "joins (xs @ [x]) = joins xs + (if xs \<noteq> [] \<and> last xs = x then 1 else 0)"
proof (cases "xs = []")
  case True
  then show ?thesis by (simp add: joins_def)
next
  case False
  then have n: "0 < length xs" by simp
  have "filter (\<lambda>i. (xs @ [x]) ! i = (xs @ [x]) ! (i - 1)) [1..<length xs] =
        filter (\<lambda>i. xs ! i = xs ! (i - 1)) [1..<length xs]"
    by (rule filter_cong) (auto simp: nth_append)
  moreover have "[1..<length (xs @ [x])] = [1..<length xs] @ [length xs]"
    using False by (cases xs) auto
  moreover have "(xs @ [x]) ! (length xs - 1) = last xs"
    using False by (simp add: nth_append last_conv_nth)
  ultimately show ?thesis
    using False by (simp add: joins_def)
qed

lemma joins_remdups_adj: "joins xs + length (remdups_adj xs) = length xs"
proof (induction xs rule: rev_induct)
  case Nil
  then show ?case by (simp add: joins_def)
next
  case (snoc x xs)
  show ?case
  proof (cases xs rule: rev_cases)
    case Nil
    then show ?thesis by (simp add: joins_def)
  next
    case (snoc ys y)
    have j: "joins (xs @ [x]) = joins xs + (if y = x then 1 else 0)"
      using joins_snoc [of xs x] by (simp add: snoc)
    have r: "length (remdups_adj (xs @ [x])) = length (remdups_adj xs) + (if y = x then 0 else 1)"
      by (simp add: snoc remdups_adj_append_two)
    from snoc.IH j r show ?thesis by simp
  qed
qed

lemma joins_contiguous:
  "contiguous tbl \<Longrightarrow> joins (map r_seg tbl) = length tbl - card (r_seg ` set tbl)"
proof -
  assume "contiguous tbl"
  then have "card (set (remdups_adj (map r_seg tbl))) = length (remdups_adj (map r_seg tbl))"
    unfolding contiguous_def by (rule distinct_card)
  then have "card (r_seg ` set tbl) = length (remdups_adj (map r_seg tbl))"
    by simp
  with joins_remdups_adj [of "map r_seg tbl"] show ?thesis by simp
qed

lemma length_filter_sum: "length (filter P xs) = sum_list (map (\<lambda>x. if P x then 1 else 0) xs)"
  by (induction xs) simp_all

lemma upstream_count:
  "length (filter (\<lambda>i. 0 < i \<and> i < length tbl \<and> r_seg (tbl ! i) = r_seg (tbl ! (i - 1)))
     [0..<length tbl]) = joins (map r_seg tbl)"
proof (cases "length tbl")
  case 0
  then show ?thesis by (simp add: joins_def)
next
  case (Suc m)
  then have "[0..<length tbl] = 0 # [1..<length tbl]"
    by (simp add: upt_conv_Cons)
  moreover have
    "filter (\<lambda>i. 0 < i \<and> i < length tbl \<and> r_seg (tbl ! i) = r_seg (tbl ! (i - 1))) [1..<length tbl] =
     filter (\<lambda>i. map r_seg tbl ! i = map r_seg tbl ! (i - 1)) [1..<length tbl]"
    by (rule filter_cong) auto
  ultimately show ?thesis by (simp add: joins_def)
qed

lemma downstream_count:
  "length (filter (\<lambda>i. Suc i < length tbl \<and> r_seg (tbl ! Suc i) = r_seg (tbl ! i))
     [0..<length tbl]) = joins (map r_seg tbl)"
proof (cases "length tbl")
  case 0
  then show ?thesis by (simp add: joins_def)
next
  case (Suc m)
  have "filter (\<lambda>i. Suc i < length tbl \<and> r_seg (tbl ! Suc i) = r_seg (tbl ! i)) [0..<m] =
        filter ((\<lambda>i. map r_seg tbl ! i = map r_seg tbl ! (i - 1)) \<circ> Suc) [0..<m]"
    using Suc by (intro filter_cong) auto
  moreover have "[1..<length tbl] = map Suc [0..<m]"
    using Suc by (simp add: map_Suc_upt)
  ultimately show ?thesis
    using Suc by (simp add: joins_def filter_map)
qed

lemma link_entries_final:
  "link_entries (map (links_upto tbl (length tbl)) [0..<length tbl]) = 2 * joins (map r_seg tbl)"
proof -
  let ?U = "\<lambda>i. 0 < i \<and> i < length tbl \<and> r_seg (tbl ! i) = r_seg (tbl ! (i - 1))"
  let ?D = "\<lambda>i. Suc i < length tbl \<and> r_seg (tbl ! Suc i) = r_seg (tbl ! i)"
  have "link_entries (map (links_upto tbl (length tbl)) [0..<length tbl]) =
        sum_list (map (\<lambda>i. (if ?U i then 1 else 0) + (if ?D i then 1 else 0)) [0..<length tbl])"
    unfolding link_entries_def map_map comp_def
    by (rule arg_cong [where f = sum_list], rule map_cong) (simp_all add: links_upto_def)
  also have "\<dots> = length (filter ?U [0..<length tbl]) + length (filter ?D [0..<length tbl])"
    unfolding length_filter_sum by (rule sum_list_addf)
  also have "\<dots> = 2 * joins (map r_seg tbl)"
    unfolding upstream_count downstream_count by simp
  finally show ?thesis .
qed

lemma automatic_pass_Inr:
  assumes "automatic_pass tbl = Inr st"
  shows "st = pass_after tbl (length tbl)" and "tbl = [] \<or> r_seg (tbl ! 0) \<noteq> 0"
    and "length tbl \<noteq> 1"
proof -
  show one: "length tbl \<noteq> 1"
    using assms automatic_pass_single [of tbl] by auto
  show ok: "tbl = [] \<or> r_seg (tbl ! 0) \<noteq> 0"
    using assms one automatic_pass_unbound [of tbl] by auto
  from automatic_pass_result [OF one ok] assms show "st = pass_after tbl (length tbl)"
    by simp
qed

lemma pass_after_fields [simp]:
  "connectiondata (pass_after tbl k) = map (links_upto tbl k) [0..<length tbl]"
  "distance_along_segment (pass_after tbl k) = map (dist_at tbl) [0..<k]"
  by (simp_all add: pass_after_def)

subsection \<open>The appended connections\<close>

lemma py_append_length: "py_append cd k x = Inr cd' \<Longrightarrow> length cd' = length cd"
  by (auto simp: py_append_def split: option.splits)

lemma py_append_total: "0 \<le> k \<Longrightarrow> k < int (length cd) \<Longrightarrow> \<exists>cd'. py_append cd k x = Inr cd'"
  by (simp add: py_append_def py_index_def)

lemma extra_connections_length: "extra_connections cd = Inr cd' \<Longrightarrow> length cd' = length cd"
  by (auto simp: extra_connections_def split: sum.splits dest!: py_append_length)

lemma extra_connections_total:
  assumes "32 \<le> length cd"
  shows "\<exists>cd'. extra_connections cd = Inr cd'"
proof -
  obtain cd1 where 1: "py_append cd 17 (- 31) = Inr cd1"
    using py_append_total [of 17 cd] assms by auto
  then have l1: "length cd1 = length cd" by (rule py_append_length)
  obtain cd2 where 2: "py_append cd1 31 17 = Inr cd2"
    using py_append_total [of 31 cd1] assms l1 by auto
  then have l2: "length cd2 = length cd" using l1 by (simp add: py_append_length)
  obtain cd3 where 3: "py_append cd2 30 (- 31) = Inr cd3"
    using py_append_total [of 30 cd2] assms l2 by auto
  then have l3: "length cd3 = length cd" using l2 by (simp add: py_append_length)
  obtain cd4 where 4: "py_append cd3 31 30 = Inr cd4"
    using py_append_total [of 31 cd3] assms l3 by auto
  show ?thesis
    by (simp add: extra_connections_def 1 2 3 4)
qed

subsection \<open>The records of the last loop\<close>

lemma segment_tables_length [simp]:
  "length (segment_lengths tbl) = 4" "length (segment_gradients tbl) = 4" "length emaxmin = 4"
  by (simp_all add: segment_lengths_def segment_gradients_def emaxmin_def)

lemma py_index_seg:
  "1 \<le> s \<Longrightarrow> s \<le> 4 \<Longrightarrow> py_index 4 (s - 1) = Some (nat (s - 1))"
  by (simp add: py_index_def)

lemma segment_lengths_nth:
  "1 \<le> s \<Longrightarrow> s \<le> 4 \<Longrightarrow> segment_lengths tbl ! nat (s - 1) = seg_total tbl s"
proof -
  assume "1 \<le> s" "s \<le> 4"
  then have "s = 1 \<or> s = 2 \<or> s = 3 \<or> s = 4" by arith
  then show ?thesis
    by (auto simp: segment_lengths_def seg_total_def)
qed

lemma segment_gradients_nth:
  assumes "1 \<le> s" "s \<le> 4"
  shows "segment_gradients tbl ! nat (s - 1) =
    np_div (fst (emaxmin ! nat (s - 1)) - snd (emaxmin ! nat (s - 1))) (seg_total tbl s)"
proof -
  have k: "nat (s - 1) < 4" using assms by simp
  then have "segment_gradients tbl ! nat (s - 1) =
      np_div (fst (emaxmin ! nat (s - 1)) - snd (emaxmin ! nat (s - 1)))
        (segment_lengths tbl ! nat (s - 1))"
    by (simp add: segment_gradients_def nth_enumerate_eq split: prod.splits)
  then show ?thesis
    using assms by (simp add: segment_lengths_nth)
qed

lemma emaxmin_order:
  "1 \<le> s \<Longrightarrow> s \<le> 4 \<Longrightarrow> snd (emaxmin ! nat (s - 1)) < fst (emaxmin ! nat (s - 1))"
proof -
  assume "1 \<le> s" "s \<le> 4"
  then have "s = 1 \<or> s = 2 \<or> s = 3 \<or> s = 4" by arith
  then show ?thesis
    by (auto simp: emaxmin_def)
qed

lemma package_rec_fields:
  assumes "package_rec g tbl das cd ireach row = Inr r"
    and "1 \<le> r_seg row" "r_seg row \<le> 4" "ireach < length das"
  shows "p_rgrd r = np_div (fst (emaxmin ! nat (r_seg row - 1)) - snd (emaxmin ! nat (r_seg row - 1)))
                      (seg_total tbl (r_seg row))"
    and "p_rtp r = np_rsub (fst (emaxmin ! nat (r_seg row - 1)))
           (np_mul (np_div (das ! ireach) (seg_total tbl (r_seg row)))
              (fst (emaxmin ! nat (r_seg row - 1)) - snd (emaxmin ! nat (r_seg row - 1))))"
  using assms
  by (auto simp: package_rec_def py_get_def py_index_seg Let_def segment_gradients_nth
      segment_lengths_nth split: sum.splits option.splits prod.splits)

lemma package_rec_total:
  assumes "1 \<le> r_seg row" "r_seg row \<le> 4" "ireach < length das" "ireach < length cd"
  shows "\<exists>r. package_rec g tbl das cd ireach row = Inr r"
  using assms
  by (auto simp: package_rec_def py_get_def py_index_seg Let_def split: prod.splits)

lemma package_loop_Inr:
  "package_loop g tbl das cd (enumerate k rows) = Inr pkg \<Longrightarrow>
   length pkg = length rows \<and>
   (\<forall>i<length rows. package_rec g tbl das cd (k + i) (rows ! i) = Inr (pkg ! i))"
proof (induction rows arbitrary: k pkg)
  case Nil
  then show ?case by simp
next
  case (Cons row rows)
  from Cons.prems obtain r rs where
    r: "package_rec g tbl das cd k row = Inr r" and
    rs: "package_loop g tbl das cd (enumerate (Suc k) rows) = Inr rs" and
    pkg: "pkg = r # rs"
    by (auto split: sum.splits)
  from Cons.IH [OF rs] r show ?case
    by (auto simp: pkg nth_Cons split: nat.splits)
qed

lemma package_loop_total:
  "(\<And>i. i < length rows \<Longrightarrow> \<exists>r. package_rec g tbl das cd (k + i) (rows ! i) = Inr r) \<Longrightarrow>
   \<exists>pkg. package_loop g tbl das cd (enumerate k rows) = Inr pkg"
proof (induction rows arbitrary: k)
  case Nil
  then show ?case by simp
next
  case (Cons row rows)
  from Cons.prems [of 0] obtain r where r: "package_rec g tbl das cd k row = Inr r"
    by auto
  have "\<exists>r. package_rec g tbl das cd (Suc k + i) (rows ! i) = Inr r" if "i < length rows" for i
    using Cons.prems [of "Suc i"] that by simp
  from Cons.IH [OF this] obtain rs where
    "package_loop g tbl das cd (enumerate (Suc k) rows) = Inr rs"
    by blast
  with r show ?case by simp
qed

subsection \<open>The whole function\<close>

lemma get_stream_data_Inr:
  assumes "get_stream_data g tbl = Inr (pkg, cd)"
  shows "automatic_pass tbl = Inr (pass_after tbl (length tbl))"
    and "extra_connections (map (links_upto tbl (length tbl)) [0..<length tbl]) = Inr cd"
    and "length pkg = length tbl"
    and "\<forall>i<length tbl. package_rec g tbl (map (dist_at tbl) [0..<length tbl]) cd i (tbl ! i) =
           Inr (pkg ! i)"
proof -
  from assms obtain st where st: "automatic_pass tbl = Inr st"
    by (auto simp: get_stream_data_def split: sum.splits)
  then have eq: "st = pass_after tbl (length tbl)"
    by (rule automatic_pass_Inr)
  with st show "automatic_pass tbl = Inr (pass_after tbl (length tbl))" by simp
  from assms st eq show
    cd: "extra_connections (map (links_upto tbl (length tbl)) [0..<length tbl]) = Inr cd"
    by (auto simp: get_stream_data_def split: sum.splits)
  from assms st eq cd have
    "package_loop g tbl (map (dist_at tbl) [0..<length tbl]) cd (enumerate 0 tbl) = Inr pkg"
    by (auto simp: get_stream_data_def split: sum.splits)
  from package_loop_Inr [OF this] show "length pkg = length tbl"
    and "\<forall>i<length tbl. package_rec g tbl (map (dist_at tbl) [0..<length tbl]) cd i (tbl ! i) =
           Inr (pkg ! i)"
    by simp_all
qed

lemma get_stream_data_total:
  assumes "32 \<le> length tbl" and "\<forall>r\<in>set tbl. 1 \<le> r_seg r \<and> r_seg r \<le> 4"
  shows "\<exists>pkg cd. get_stream_data g tbl = Inr (pkg, cd)"
proof -
  have "tbl \<noteq> []" using assms(1) by auto
  then have "r_seg (tbl ! 0) \<noteq> 0"
    using assms(2) by (cases tbl) auto
  moreover have "length tbl \<noteq> 1" using assms(1) by simp
  ultimately have st: "automatic_pass tbl = Inr (pass_after tbl (length tbl))"
    by (simp add: automatic_pass_result)
  obtain cd where cd: "extra_connections (map (links_upto tbl (length tbl)) [0..<length tbl]) = Inr cd"
    using extra_connections_total [of "map (links_upto tbl (length tbl)) [0..<length tbl]"] assms(1)
    by auto
  then have len: "length cd = length tbl"
    by (simp add: extra_connections_length)
  have "\<exists>r. package_rec g tbl (map (dist_at tbl) [0..<length tbl]) cd (0 + i) (tbl ! i) = Inr r"
    if "i < length tbl" for i
    using that assms(2) len by (intro package_rec_total) auto
  then obtain pkg where
    "package_loop g tbl (map (dist_at tbl) [0..<length tbl]) cd (enumerate 0 tbl) = Inr pkg"
    using package_loop_total by blast
  with st cd show ?thesis
    by (simp add: get_stream_data_def)
qed

lemma get_stream_data_fields:
  assumes "get_stream_data g tbl = Inr (pkg, cd)" and "i < length tbl"
    and "1 \<le> r_seg (tbl ! i)" and "r_seg (tbl ! i) \<le> 4"
  shows "p_rgrd (pkg ! i) =
           np_div (fst (emaxmin ! nat (r_seg (tbl ! i) - 1)) - snd (emaxmin ! nat (r_seg (tbl ! i) - 1)))
             (seg_total tbl (r_seg (tbl ! i)))"
    and "p_rtp (pkg ! i) =
           np_rsub (fst (emaxmin ! nat (r_seg (tbl ! i) - 1)))
             (np_mul (np_div (dist_at tbl i) (seg_total tbl (r_seg (tbl ! i))))
                (fst (emaxmin ! nat (r_seg (tbl ! i) - 1)) - snd (emaxmin ! nat (r_seg (tbl ! i) - 1))))"
proof -
  from get_stream_data_Inr(4) [OF assms(1)] assms(2)
  have r: "package_rec g tbl (map (dist_at tbl) [0..<length tbl]) cd i (tbl ! i) = Inr (pkg ! i)"
    by blast
  have len: "i < length (map (dist_at tbl) [0..<length tbl])"
    using assms(2) by simp
  show "p_rgrd (pkg ! i) =
           np_div (fst (emaxmin ! nat (r_seg (tbl ! i) - 1)) - snd (emaxmin ! nat (r_seg (tbl ! i) - 1)))
             (seg_total tbl (r_seg (tbl ! i)))"
    using package_rec_fields(1) [OF r assms(3,4) len] .
  show "p_rtp (pkg ! i) =
           np_rsub (fst (emaxmin ! nat (r_seg (tbl ! i) - 1)))
             (np_mul (np_div (dist_at tbl i) (seg_total tbl (r_seg (tbl ! i))))
                (fst (emaxmin ! nat (r_seg (tbl ! i) - 1)) - snd (emaxmin ! nat (r_seg (tbl ! i) - 1))))"
    using package_rec_fields(2) [OF r assms(3,4) len] assms(2) by simp
qed

lemma get_stream_data_projr:
  "\<exists>pkg cd. get_stream_data g tbl = Inr (pkg, cd) \<Longrightarrow>
   get_stream_data g tbl =
     Inr (fst (projr (get_stream_data g tbl)), snd (projr (get_stream_data g tbl)))"
  by auto

lemma replicate_table_returns:
  assumes "1 \<le> r_seg r" "r_seg r \<le> 4"
  shows "get_stream_data g (replicate 32 r) =
     Inr (fst (projr (get_stream_data g (replicate 32 r))),
          snd (projr (get_stream_data g (replicate 32 r))))"
  using assms by (intro get_stream_data_projr get_stream_data_total) simp_all

lemma example_automatic_pass: "automatic_pass example_table = Inr example_pass"
  by (simp add: automatic_pass_def example_table_def example_pass_def pass_init_def
      reach_step_def continue_segment_def new_segment_def py_append_def py_get_def py_index_def
      Let_def)

text \<open>
  The first loop completes exactly on the tables that do not consist of a single row and do
  not start with segment 0.
\<close>

lemma automatic_pass_returns:
  "(\<exists>st. automatic_pass tbl = Inr st) \<longleftrightarrow>
     length tbl \<noteq> 1 \<and> (tbl = [] \<or> r_seg (tbl ! 0) \<noteq> 0)"
proof
  assume "\<exists>st. automatic_pass tbl = Inr st"
  then obtain st where "automatic_pass tbl = Inr st" ..
  from automatic_pass_Inr(3,2) [OF this]
  show "length tbl \<noteq> 1 \<and> (tbl = [] \<or> r_seg (tbl ! 0) \<noteq> 0)" ..
next
  assume "length tbl \<noteq> 1 \<and> (tbl = [] \<or> r_seg (tbl ! 0) \<noteq> 0)"
  then have "automatic_pass tbl = Inr (pass_after tbl (length tbl))"
    by (intro automatic_pass_result) simp_all
  then show "\<exists>st. automatic_pass tbl = Inr st" ..
qed

section \<open>The claims\<close>

subsection \<open>Lake connections\<close>

text \<open>
  Claim C1. For every lake cell and each of its four neighbours, a horizontal record toward
  the neighbour is emitted exactly when the neighbour is in bounds, not a lake cell and
  active; a lake cell with four active non-lake neighbours yields five records.

  The code does not do this for the left neighbour. Here the lake cell at row 1, column 1
  of \<open>one_cell_lakibd\<close> has four in-bounds, non-lake, active neighbours; the function returns
  four records for it, none toward the left neighbour \<open>(0, 1, 0)\<close>.
\<close>

theorem left_neighbour_not_connected:
  "np_get2 one_cell_lakibd 1 0 = Some 0 \<and> np_get3 active_idomain 0 1 0 = Some 1 \<and>
   get_lake_connection_data prudic2004t2 one_cell_lakibd active_idomain =
     Inr ([conn prudic2004t2 0 0 (0, 0, 1) ''horizontal'' (403.717 / 2) 405.665,
           conn prudic2004t2 0 1 (0, 1, 2) ''horizontal'' (405.665 / 2) 403.717,
           conn prudic2004t2 0 2 (0, 2, 1) ''horizontal'' (403.717 / 2) 405.665,
           conn prudic2004t2 0 3 (1, 1, 1) ''vertical'' 0 0], [4, 0])"
  by (simp add: lake_eval one_cell_lakibd_def active_idomain_def conn_def prudic2004t2_def)

text \<open>
  Claim C6. Every lake cell receives exactly one vertical record, toward the cell below it,
  whatever its neighbours are; a lake cell with no active non-lake neighbour yields this
  one record only.

  The first half holds (\<open>cell_faces\<close> ends with the vertical record). The second fails in
  the left block: in \<open>two_cell_lakibd\<close> under \<open>masked_idomain\<close> no cell of the top layer is
  active, yet the lake cell at row 1, column 2 gets a horizontal record toward the inactive
  lake cell \<open>(0, 1, 1)\<close> on its left, so the two lake cells yield three records.
\<close>

theorem inactive_lake_neighbour_connected:
  "get_lake_connection_data prudic2004t2 two_cell_lakibd masked_idomain =
     Inr ([conn prudic2004t2 0 0 (1, 1, 1) ''vertical'' 0 0,
           conn prudic2004t2 0 1 (0, 1, 1) ''horizontal'' (405.665 / 2) 403.717,
           conn prudic2004t2 0 2 (1, 1, 2) ''vertical'' 0 0], [3, 0])"
  by (simp add: lake_eval two_cell_lakibd_def masked_idomain_def conn_def prudic2004t2_def)

text \<open>
  Claim C7. For every grid of non-negative values that the function accepts, the
  connection indices of each lake are \<open>0, 1, 2, \<dots>\<close> in the order of emission, the
  returned counts are the numbers of records of lake 0 and of lake 1, and the records come
  cell by cell in row-major order, within a cell in the order back, left, right, front,
  vertical.
\<close>

theorem lake_indices_contiguous:
  assumes "get_lake_connection_data g lk idm = Inr (recs, cnt)"
    and "\<forall>xs\<in>set lk. \<forall>v\<in>set xs. 0 \<le> v"
  shows "(\<forall>l. map c_index (filter (\<lambda>r. c_lake r = l) recs) =
              map int [0..<length (filter (\<lambda>r. c_lake r = l) recs)]) \<and>
         cnt = [int (length (filter (\<lambda>r. c_lake r = 0) recs)),
                int (length (filter (\<lambda>r. c_lake r = 1) recs))] \<and>
         map face_of recs = concat (map (\<lambda>(i, j). cell_faces g lk idm i j) (cells g))"
proof -
  from assms(1) have un: "raised (lake_run g lk idm) = None"
    and recs: "recs = lakeconnectiondata (lake_run g lk idm)"
    and cnt: "cnt = nlakecon (lake_run g lk idm)"
    by (simp_all add: get_lake_connection_data_Inr)
  have "numbered (lake_run g lk idm)"
    unfolding lake_run_cells using assms(2) by (intro scan_cells_numbered) (simp_all add: lake_init_ok)
  then have a: "(\<forall>l. map c_index (filter (\<lambda>r. c_lake r = l) recs) =
              map int [0..<length (filter (\<lambda>r. c_lake r = l) recs)]) \<and>
         cnt = [int (length (filter (\<lambda>r. c_lake r = 0) recs)),
                int (length (filter (\<lambda>r. c_lake r = 1) recs))]"
    by (simp add: numbered_def recs cnt)
  have "map face_of recs = concat (map (\<lambda>(i, j). cell_faces g lk idm i j) (cells g))"
    using scan_cells_faces [of g "cells g" "lake_init lk idm"] un
    by (simp add: recs lake_run_cells)
  with a show ?thesis by simp
qed

theorem lake_indices_contiguous_example:
  "get_lake_connection_data example_globals example_lakibd example_idomain =
     Inr (example_records, [4, 0]) \<and>
   map c_index (filter (\<lambda>r. c_lake r = 0) example_records) = [0, 1, 2, 3] \<and>
   map (fst \<circ> snd \<circ> face_of) example_records = [(1, 0, 1), (0, 0, 0), (1, 1, 0), (1, 1, 1)]"
proof -
  have nonneg: "\<forall>xs\<in>set example_lakibd. \<forall>v\<in>set xs. 0 \<le> v"
    by (simp add: example_lakibd_def)
  from lake_indices_contiguous [OF example_run nonneg]
  have "map c_index (filter (\<lambda>r. c_lake r = 0) example_records) =
          map int [0..<length (filter (\<lambda>r. c_lake r = 0) example_records)]"
    by blast
  then show ?thesis
    by (simp add: example_run) (simp add: example_records_def conn_def face_of_def)
qed

text \<open>
  Claim C8. Every record of the result belongs to one scanned cell; a horizontal record
  toward the back or front neighbour of its cell carries \<open>(delc / 2, delr)\<close>, one toward the
  left or right neighbour carries \<open>(delr / 2, delc)\<close>, and a vertical record carries
  \<open>(0, 0)\<close>.
\<close>

theorem lake_distance_fields:
  assumes "get_lake_connection_data g lk idm = Inr (recs, cnt)"
  shows "map face_of recs = concat (map (\<lambda>(i, j). cell_faces g lk idm i j) (cells g)) \<and>
         (\<forall>(i, j)\<in>set (cells g). \<forall>f\<in>set (cell_faces g lk idm i j). oriented g i j f) \<and>
         (\<forall>r\<in>set recs. \<exists>i j. i < nrow g \<and> j < ncol g \<and> oriented g i j (face_of r))"
proof -
  from assms have un: "raised (lake_run g lk idm) = None"
    and recs: "recs = lakeconnectiondata (lake_run g lk idm)"
    by (simp_all add: get_lake_connection_data_Inr)
  have trace: "map face_of recs = concat (map (\<lambda>(i, j). cell_faces g lk idm i j) (cells g))"
    using scan_cells_faces [of g "cells g" "lake_init lk idm"] un
    by (simp add: recs lake_run_cells)
  have cell: "\<forall>(i, j)\<in>set (cells g). \<forall>f\<in>set (cell_faces g lk idm i j). oriented g i j f"
    using cell_faces_oriented by blast
  have "\<exists>i j. i < nrow g \<and> j < ncol g \<and> oriented g i j (face_of r)" if "r \<in> set recs" for r
  proof -
    from that have "face_of r \<in> set (map face_of recs)"
      by simp
    then obtain i j where ij: "(i, j) \<in> set (cells g)"
      and f: "face_of r \<in> set (cell_faces g lk idm i j)"
      unfolding trace by auto
    from f have "oriented g i j (face_of r)"
      by (rule cell_faces_oriented)
    moreover from ij have "i < nrow g" "j < ncol g"
      by (simp_all add: cells_set)
    ultimately show ?thesis by blast
  qed
  with trace cell show ?thesis by blast
qed

theorem lake_distance_fields_example:
  "get_lake_connection_data wide_globals four_way_lakibd four_way_idomain =
     Inr (four_way_records, [8, 0]) \<and>
   map face_of four_way_records =
     concat (map (\<lambda>(i, j). cell_faces wide_globals four_way_lakibd four_way_idomain i j)
       (cells wide_globals)) \<and>
   map face_of four_way_records =
     [(0, (0, 1, 1), ''horizontal'', delc wide_globals / 2, delr wide_globals),
      (0, (1, 0, 1), ''vertical'', 0, 0),
      (0, (0, 0, 1), ''horizontal'', delr wide_globals / 2, delc wide_globals),
      (0, (0, 1, 2), ''horizontal'', delc wide_globals / 2, delr wide_globals),
      (0, (1, 0, 2), ''vertical'', 0, 0),
      (0, (0, 0, 0), ''horizontal'', delc wide_globals / 2, delr wide_globals),
      (0, (0, 1, 1), ''horizontal'', delr wide_globals / 2, delc wide_globals),
      (0, (1, 1, 0), ''vertical'', 0, 0)] \<and>
   oriented wide_globals 0 2
     (0, (0, 0, 1), ''horizontal'', delr wide_globals / 2, delc wide_globals) \<and>
   oriented wide_globals 1 0
     (0, (0, 0, 0), ''horizontal'', delc wide_globals / 2, delr wide_globals)"
proof -
  note fields = lake_distance_fields [OF four_way_run]
  from fields have trace: "map face_of four_way_records =
     concat (map (\<lambda>(i, j). cell_faces wide_globals four_way_lakibd four_way_idomain i j)
       (cells wide_globals))"
    by (rule conjunct1)
  from fields have cell: "\<forall>(i, j)\<in>set (cells wide_globals).
      \<forall>f\<in>set (cell_faces wide_globals four_way_lakibd four_way_idomain i j).
        oriented wide_globals i j f"
    by blast
  have faces: "map face_of four_way_records =
     [(0, (0, 1, 1), ''horizontal'', delc wide_globals / 2, delr wide_globals),
      (0, (1, 0, 1), ''vertical'', 0, 0),
      (0, (0, 0, 1), ''horizontal'', delr wide_globals / 2, delc wide_globals),
      (0, (0, 1, 2), ''horizontal'', delc wide_globals / 2, delr wide_globals),
      (0, (1, 0, 2), ''vertical'', 0, 0),
      (0, (0, 0, 0), ''horizontal'', delc wide_globals / 2, delr wide_globals),
      (0, (0, 1, 1), ''horizontal'', delr wide_globals / 2, delc wide_globals),
      (0, (1, 1, 0), ''vertical'', 0, 0)]"
    by (simp add: four_way_records_def conn_def face_of_def wide_globals_def prudic2004t2_def)
  have "(0, 2) \<in> set (cells wide_globals)" "(1, 0) \<in> set (cells wide_globals)"
    by (simp_all add: cells_set wide_globals_def)
  moreover have "(0, (0, 0, 1), ''horizontal'', delr wide_globals / 2, delc wide_globals)
      \<in> set (cell_faces wide_globals four_way_lakibd four_way_idomain 0 2)"
    by (simp add: cell_faces_def four_way_lakibd_def four_way_idomain_def wide_globals_def)
  moreover have "(0, (0, 0, 0), ''horizontal'', delc wide_globals / 2, delr wide_globals)
      \<in> set (cell_faces wide_globals four_way_lakibd four_way_idomain 1 0)"
    by (simp add: cell_faces_def four_way_lakibd_def four_way_idomain_def wide_globals_def)
  ultimately have "oriented wide_globals 0 2
      (0, (0, 0, 1), ''horizontal'', delr wide_globals / 2, delc wide_globals)"
    and "oriented wide_globals 1 0
      (0, (0, 0, 0), ''horizontal'', delc wide_globals / 2, delr wide_globals)"
    using cell by blast+
  with four_way_run trace faces show ?thesis
    by blast
qed

text \<open>
  Claim C9. A grid with a value of 3 or more in a scanned cell makes the function fail with
  \<^verbatim>\<open>IndexError\<close>: the counter list has two entries.
\<close>

theorem lake_value_overflow:
  assumes "i < nrow g" and "j < ncol g" and "np_get2 lk i j = Some v" and "3 \<le> v"
  shows "get_lake_connection_data g lk idm = Inl IndexError"
proof -
  have "(i, j) \<in> set (cells g)"
    using assms(1,2) by (simp add: cells_set)
  then have "raised (lake_run g lk idm) = Some IndexError"
    unfolding lake_run_cells using assms(3,4)
    by (intro scan_cells_overflow [where v = v]) (simp_all add: lake_init_ok)
  then show ?thesis
    by (simp add: get_lake_connection_data_def)
qed

theorem lake_value_overflow_example:
  "get_lake_connection_data example_globals [[0, 1], [3, 1]] example_idomain = Inl IndexError"
  using lake_value_overflow [of 1 example_globals 0 "[[0, 1], [3, 1]]" 3 example_idomain]
  by (simp add: example_globals_def np_get2_def)

subsection \<open>Stream reaches\<close>

text \<open>
  Claim C3. On a table that keeps each segment together, the first loop links exactly the
  consecutive reaches of one segment: reach \<open>i\<close> gets \<open>i - 1\<close> when reach \<open>i - 1\<close> is of its
  segment, and \<open>- (i + 1)\<close> when reach \<open>i + 1\<close> is; the number of links, each entered twice,
  is the number of reaches minus the number of segments. This is what the loop leaves
  whenever it completes, which by \<open>automatic_pass_returns\<close> it does unless the first reach
  is of segment 0 or the file has a single row.
\<close>

theorem automatic_links:
  assumes "automatic_pass tbl = Inr st" and "contiguous tbl"
  shows "connectiondata st =
           map (\<lambda>i. [int i] @
                 (if 0 < i \<and> r_seg (tbl ! i) = r_seg (tbl ! (i - 1)) then [int i - 1] else []) @
                 (if Suc i < length tbl \<and> r_seg (tbl ! Suc i) = r_seg (tbl ! i)
                  then [- int (Suc i)] else []))
             [0..<length tbl] \<and>
         link_entries (connectiondata st) = 2 * (length tbl - card (r_seg ` set tbl))"
proof -
  from assms(1) have st: "st = pass_after tbl (length tbl)"
    by (rule automatic_pass_Inr)
  have "map (links_upto tbl (length tbl)) [0..<length tbl] =
      map (\<lambda>i. [int i] @
                 (if 0 < i \<and> r_seg (tbl ! i) = r_seg (tbl ! (i - 1)) then [int i - 1] else []) @
                 (if Suc i < length tbl \<and> r_seg (tbl ! Suc i) = r_seg (tbl ! i)
                  then [- int (Suc i)] else []))
             [0..<length tbl]"
    by (rule map_cong) (simp_all add: links_upto_def)
  moreover have "link_entries (map (links_upto tbl (length tbl)) [0..<length tbl]) =
      2 * (length tbl - card (r_seg ` set tbl))"
    using assms(2) by (simp add: link_entries_final joins_contiguous)
  ultimately show ?thesis
    by (simp add: st)
qed

theorem automatic_links_example:
  "automatic_pass example_table = Inr example_pass \<and> contiguous example_table \<and>
   connectiondata example_pass = [[0, - 1], [1, 0, - 2], [2, 1], [3, - 4], [4, 3]] \<and>
   link_entries (connectiondata example_pass) = 2 * (5 - 2)"
proof -
  have c: "contiguous example_table"
    by (simp add: contiguous_def example_table_def)
  have n: "card (r_seg ` set example_table) = 2" "length example_table = 5"
    by (simp_all add: example_table_def)
  have "link_entries (connectiondata example_pass) =
      2 * (length example_table - card (r_seg ` set example_table))"
    using automatic_links [OF example_automatic_pass c] by (rule conjunct2)
  then have "link_entries (connectiondata example_pass) = 2 * (5 - 2)"
    unfolding n .
  moreover have "connectiondata example_pass = [[0, - 1], [1, 0, - 2], [2, 1], [3, - 4], [4, 3]]"
    by (simp add: example_pass_def)
  ultimately show ?thesis
    using c example_automatic_pass by blast
qed

text \<open>
  Claim C4. The distance along the segment is the running midpoint: half the length of the
  reach for the first reach of a segment, and for a later reach the distance of the reach
  before plus half of both lengths; reaches of lengths 10, 20, 30 that make up the start of
  a segment get 5, 20, 45. This holds of the list the first loop leaves whenever it
  completes.
\<close>

theorem running_midpoints:
  assumes "automatic_pass tbl = Inr st"
  shows "length (distance_along_segment st) = length tbl \<and>
         (\<forall>i<length tbl. distance_along_segment st ! i =
            (if i = 0 \<or> r_seg (tbl ! i) \<noteq> r_seg (tbl ! (i - 1)) then r_length (tbl ! i) / 2
             else distance_along_segment st ! (i - 1) + r_length (tbl ! (i - 1)) / 2 +
                  r_length (tbl ! i) / 2)) \<and>
         (\<forall>k. k + 2 < length tbl \<and> (k = 0 \<or> r_seg (tbl ! k) \<noteq> r_seg (tbl ! (k - 1))) \<and>
              r_seg (tbl ! (k + 1)) = r_seg (tbl ! k) \<and> r_seg (tbl ! (k + 2)) = r_seg (tbl ! k) \<and>
              r_length (tbl ! k) = 10 \<and> r_length (tbl ! (k + 1)) = 20 \<and>
              r_length (tbl ! (k + 2)) = 30 \<longrightarrow>
              distance_along_segment st ! k = 5 \<and> distance_along_segment st ! (k + 1) = 20 \<and>
              distance_along_segment st ! (k + 2) = 45)"
proof -
  from assms have st: "st = pass_after tbl (length tbl)"
    by (rule automatic_pass_Inr)
  have rec: "dist_at tbl i =
            (if i = 0 \<or> r_seg (tbl ! i) \<noteq> r_seg (tbl ! (i - 1)) then r_length (tbl ! i) / 2
             else dist_at tbl (i - 1) + r_length (tbl ! (i - 1)) / 2 + r_length (tbl ! i) / 2)" for i
    by (cases i) simp_all
  have a: "\<forall>i<length tbl. distance_along_segment st ! i =
            (if i = 0 \<or> r_seg (tbl ! i) \<noteq> r_seg (tbl ! (i - 1)) then r_length (tbl ! i) / 2
             else distance_along_segment st ! (i - 1) + r_length (tbl ! (i - 1)) / 2 +
                  r_length (tbl ! i) / 2)"
    using rec by (auto simp: st)
  have b: "distance_along_segment st ! k = 5 \<and> distance_along_segment st ! (k + 1) = 20 \<and>
              distance_along_segment st ! (k + 2) = 45"
    if "k + 2 < length tbl" "k = 0 \<or> r_seg (tbl ! k) \<noteq> r_seg (tbl ! (k - 1))"
      "r_seg (tbl ! (k + 1)) = r_seg (tbl ! k)" "r_seg (tbl ! (k + 2)) = r_seg (tbl ! k)"
      "r_length (tbl ! k) = 10" "r_length (tbl ! (k + 1)) = 20" "r_length (tbl ! (k + 2)) = 30" for k
  proof -
    have 0: "dist_at tbl k = 5"
      using that(2,5) by (subst rec) auto
    have 1: "dist_at tbl (Suc k) = 20"
      using that 0 by simp
    have 2: "dist_at tbl (Suc (Suc k)) = 45"
      using that 1 by simp
    from that(1) 0 1 2 show ?thesis
      by (simp add: st)
  qed
  from a b show ?thesis
    by (simp add: st)
qed

theorem running_midpoints_example:
  "automatic_pass example_table = Inr example_pass \<and>
   distance_along_segment example_pass = [5, 20, 45, 2, 7] \<and>
   distance_along_segment example_pass ! 2 =
     distance_along_segment example_pass ! 1 + r_length (example_table ! 1) / 2 +
     r_length (example_table ! 2) / 2"
proof -
  from running_midpoints [OF example_automatic_pass]
  have "\<forall>i<length example_table. distance_along_segment example_pass ! i =
            (if i = 0 \<or> r_seg (example_table ! i) \<noteq> r_seg (example_table ! (i - 1))
             then r_length (example_table ! i) / 2
             else distance_along_segment example_pass ! (i - 1) +
                  r_length (example_table ! (i - 1)) / 2 + r_length (example_table ! i) / 2)"
    by blast
  then have "distance_along_segment example_pass ! 2 =
            (if (2::nat) = 0 \<or> r_seg (example_table ! 2) \<noteq> r_seg (example_table ! (2 - 1))
             then r_length (example_table ! 2) / 2
             else distance_along_segment example_pass ! (2 - 1) +
                  r_length (example_table ! (2 - 1)) / 2 + r_length (example_table ! 2) / 2)"
    by (simp add: example_table_def)
  then show ?thesis
    by (simp add: example_automatic_pass) (simp add: example_pass_def example_table_def)
qed

text \<open>
  The channel-top elevation and the bed slope of a record are results of float64
  arithmetic on the accumulated distance and the summed segment length. The model computes
  the finite values exactly, so it gives the expression of each (\<open>get_stream_data_fields\<close>) and
  what a division by zero yields, and no bound on a rounded result.
\<close>

text \<open>
  Claim C2. A segment of total length zero makes the bed-slope computation fail with a
  validation error before any output is produced.

  The function has no such check. On \<open>zero_length_table\<close> it returns its records; the
  slope of segment 1 is the quotient of the float division by zero, plus infinity, and the
  channel-top elevation is not a number.
\<close>

theorem zero_length_segment_returns:
  "\<not> isl (get_stream_data prudic2004t2 zero_length_table) \<and>
   segment_lengths zero_length_table ! 0 = 0 \<and>
   p_rgrd (fst (projr (get_stream_data prudic2004t2 zero_length_table)) ! 0) = PosInf \<and>
   p_rtp (fst (projr (get_stream_data prudic2004t2 zero_length_table)) ! 0) = NaN"
proof -
  have run: "get_stream_data prudic2004t2 zero_length_table =
      Inr (fst (projr (get_stream_data prudic2004t2 zero_length_table)),
           snd (projr (get_stream_data prudic2004t2 zero_length_table)))"
    unfolding zero_length_table_def by (rule replicate_table_returns) simp_all
  have i: "0 < length zero_length_table"
    and s: "1 \<le> r_seg (zero_length_table ! 0)" "r_seg (zero_length_table ! 0) \<le> 4"
    by (simp_all add: zero_length_table_def)
  have z: "seg_total zero_length_table (r_seg (zero_length_table ! 0)) = 0"
    "dist_at zero_length_table 0 = 0"
    "emaxmin ! nat (r_seg (zero_length_table ! 0) - 1) = (49, 45)"
    by (simp_all add: zero_length_table_def seg_total_def sum_list_replicate emaxmin_def)
  have "\<not> isl (get_stream_data prudic2004t2 zero_length_table)"
    by (subst run) simp
  moreover have "segment_lengths zero_length_table ! 0 = 0"
    by (simp add: zero_length_table_def segment_lengths_def sum_list_replicate)
  moreover have "p_rgrd (fst (projr (get_stream_data prudic2004t2 zero_length_table)) ! 0) = PosInf"
    using get_stream_data_fields(1) [OF run i s, unfolded z] by (simp add: np_div_def)
  moreover have "p_rtp (fst (projr (get_stream_data prudic2004t2 zero_length_table)) ! 0) = NaN"
    using get_stream_data_fields(2) [OF run i s, unfolded z]
    by (simp add: np_div_def np_mul_def np_rsub_def)
  ultimately show ?thesis by blast
qed

text \<open>
  Claim C2, amended. On a table of at least 32 reaches with segment numbers from 1 to 4
  the function returns one record per reach, and a reach of a segment of total length zero
  carries the bed slope plus infinity.
\<close>

theorem zero_length_segment_slope:
  assumes "32 \<le> length tbl" and "\<forall>r\<in>set tbl. 1 \<le> r_seg r \<and> r_seg r \<le> 4"
  shows "\<exists>pkg cd. get_stream_data g tbl = Inr (pkg, cd) \<and> length pkg = length tbl \<and>
           (\<forall>i<length tbl. segment_lengths tbl ! nat (r_seg (tbl ! i) - 1) = 0 \<longrightarrow>
              p_rgrd (pkg ! i) = PosInf)"
proof -
  from get_stream_data_total [OF assms] obtain pkg cd where
    run: "get_stream_data g tbl = Inr (pkg, cd)" by blast
  have "p_rgrd (pkg ! i) = PosInf"
    if "i < length tbl" "segment_lengths tbl ! nat (r_seg (tbl ! i) - 1) = 0" for i
  proof -
    have s: "1 \<le> r_seg (tbl ! i)" "r_seg (tbl ! i) \<le> 4"
      using assms(2) that(1) by (simp_all add: nth_mem)
    then have "seg_total tbl (r_seg (tbl ! i)) = 0"
      using that(2) by (simp add: segment_lengths_nth)
    with get_stream_data_fields(1) [OF run that(1) s] emaxmin_order [OF s]
    show ?thesis by (simp add: np_div_def)
  qed
  with run get_stream_data_Inr(3) [OF run] show ?thesis by blast
qed

theorem zero_length_segment_slope_example:
  "\<exists>pkg cd. get_stream_data prudic2004t2 zero_length_table = Inr (pkg, cd) \<and>
     length pkg = 32 \<and> p_rgrd (pkg ! 0) = PosInf"
proof -
  have h: "32 \<le> length zero_length_table"
    "\<forall>r\<in>set zero_length_table. 1 \<le> r_seg r \<and> r_seg r \<le> 4"
    by (simp_all add: zero_length_table_def)
  have z: "segment_lengths zero_length_table ! nat (r_seg (zero_length_table ! 0) - 1) = 0"
    "length zero_length_table = 32"
    by (simp_all add: zero_length_table_def segment_lengths_def sum_list_replicate)
  from zero_length_segment_slope [OF h, of prudic2004t2] z show ?thesis
    by auto
qed

end
